theory Spec2Isabelle
  imports Main "HOL-Library.Word"
begin

section \<open>The storage card behind \<open>SD_MMC\<close>\<close>

text \<open>
  \<open>Storage.cpp\<close> exposes an SD card as a USB mass-storage drive. Its two data callbacks,
  \<open>onRead\<close> and \<open>onWrite\<close>, translate a host request (start sector \<open>lba\<close>, byte
  \<open>offset\<close> inside that sector, \<open>bufsize\<close> bytes) into whole-sector calls on the global
  \<open>SD_MMC\<close> object; \<open>mount\<close> and \<open>unmount\<close> open and close that object and start and stop
  the mass-storage class. \<open>uint32_t\<close> values are 32-bit words, so \<open>+\<close> and \<open>-\<close> wrap
  around as they do in the C++ source; bytes are 8-bit words.
\<close>

type_synonym byte = "8 word"
type_synonym u32 = "32 word"

text \<open>Every call on \<open>SD_MMC\<close> that has an effect or touches a sector is recorded, in order.\<close>

datatype sd_call =
    SetPins int int int
  | Begin
  | End
  | ReadRAW u32
  | WriteRAW u32 "byte list"

datatype card_type = CARD_NONE | CARD_MMC | CARD_SD | CARD_SDHC

text \<open>
  Modelled from the spec: the \<open>SD_MMC\<close> driver object (the spec's Medium) belongs to the
  platform library and is not part of the repository. Section 4.1 of the spec gives its
  contract: a handle that is open or closed, a fixed sector size and sector count, and blocking
  whole-sector reads and writes that either complete or fail, with no partial result. The
  record holds the card in the slot (\<open>inserted\<close>, \<open>kind\<close>, \<open>sector_size\<close>, \<open>num_sectors\<close>,
  the sector contents \<open>blocks\<close>), the sectors on which the card fails (\<open>read_bad\<close>,
  \<open>write_bad\<close>), the driver's handle (\<open>is_open\<close>) and the calls made so far (\<open>trace\<close>).
\<close>

record sd_mmc =
  inserted :: bool
  kind :: card_type
  is_open :: bool
  sector_size :: u32
  num_sectors :: u32
  blocks :: "u32 \<Rightarrow> byte list"
  read_bad :: "u32 \<Rightarrow> bool"
  write_bad :: "u32 \<Rightarrow> bool"
  trace :: "sd_call list"

definition called :: "sd_call \<Rightarrow> sd_mmc \<Rightarrow> sd_mmc" where
  "called c m = m\<lparr>trace := trace m @ [c]\<rparr>"

text \<open>Modelled from the spec: \<open>SD_MMC.sectorSize()\<close>, zero while the medium is closed
  (section 4.2: "\<open>sectorSize == 0\<close> (Medium not open)").\<close>

definition sectorSize :: "sd_mmc \<Rightarrow> u32" where
  "sectorSize m = (if is_open m then sector_size m else 0)"

text \<open>Modelled from the spec: \<open>SD_MMC.numSectors()\<close>, zero while the medium is closed.\<close>

definition numSectors :: "sd_mmc \<Rightarrow> u32" where
  "numSectors m = (if is_open m then num_sectors m else 0)"

text \<open>Modelled from the spec: \<open>SD_MMC.cardType()\<close>, \<open>CARD_NONE\<close> while the medium is closed.\<close>

definition cardType :: "sd_mmc \<Rightarrow> card_type" where
  "cardType m = (if is_open m then kind m else CARD_NONE)"

text \<open>Modelled from the spec: \<open>SD_MMC.setPins\<close>, the pin configuration handed to \<open>open\<close>.\<close>

definition setPins :: "sd_mmc \<Rightarrow> int \<Rightarrow> int \<Rightarrow> int \<Rightarrow> sd_mmc" where
  "setPins m clk cmd d0 = called (SetPins clk cmd d0) m"

text \<open>Modelled from the spec: \<open>SD_MMC.begin\<close>, the spec's \<open>open\<close>. It succeeds when a card
  answers (or the medium is open already) and fails, leaving the medium closed, otherwise.\<close>

definition sdmmc_begin :: "sd_mmc \<Rightarrow> bool \<times> sd_mmc" where
  "sdmmc_begin m =
     (if is_open m then (True, called Begin m)
      else if inserted m then (True, called Begin (m\<lparr>is_open := True\<rparr>))
      else (False, called Begin m))"

text \<open>Modelled from the spec: \<open>SD_MMC.end\<close>, the spec's \<open>close\<close>: idempotent, safe when the
  medium is not open.\<close>

definition sdmmc_end :: "sd_mmc \<Rightarrow> sd_mmc" where
  "sdmmc_end m = called End (m\<lparr>is_open := False\<rparr>)"

text \<open>Modelled from the spec: when a sector read succeeds. The medium is open, the sector
  lies below the sector count (the medium's own bounds check), and the card does not fail on
  it.\<close>

definition read_ok :: "sd_mmc \<Rightarrow> u32 \<Rightarrow> bool" where
  "read_ok m blk \<longleftrightarrow> is_open m \<and> blk < num_sectors m \<and> \<not> read_bad m blk"

text \<open>Modelled from the spec: when a sector write succeeds.\<close>

definition write_ok :: "sd_mmc \<Rightarrow> u32 \<Rightarrow> bool" where
  "write_ok m blk \<longleftrightarrow> is_open m \<and> blk < num_sectors m \<and> \<not> write_bad m blk"

text \<open>Modelled from the spec: \<open>readSector\<close>, the sector's bytes or a failure.\<close>

definition readRAW :: "sd_mmc \<Rightarrow> u32 \<Rightarrow> byte list option \<times> sd_mmc" where
  "readRAW m blk = (if read_ok m blk then Some (blocks m blk) else None, called (ReadRAW blk) m)"

text \<open>Modelled from the spec: \<open>writeSector\<close>. It stores the first \<open>sector_size\<close> bytes of the
  buffer it is given; a failed write stores nothing.\<close>

definition writeRAW :: "sd_mmc \<Rightarrow> byte list \<Rightarrow> u32 \<Rightarrow> bool \<times> sd_mmc" where
  "writeRAW m buf blk =
     (let sect = take (unat (sector_size m)) buf in
      if write_ok m blk
      then (True, called (WriteRAW blk sect) (m\<lparr>blocks := (blocks m)(blk := sect)\<rparr>))
      else (False, called (WriteRAW blk sect) m))"

text \<open>Whether a recorded call is a sector operation that succeeds on the medium \<open>m\<close>;
  the calls that are not sector operations count as succeeding. Neither \<open>read_ok\<close> nor
  \<open>write_ok\<close> depends on the sector contents or on the trace, so the verdict is the same
  before and after a transfer.\<close>

fun call_ok :: "sd_mmc \<Rightarrow> sd_call \<Rightarrow> bool" where
  "call_ok m (ReadRAW b) = read_ok m b"
| "call_ok m (WriteRAW b d) = write_ok m b"
| "call_ok m c = True"

section \<open>The block translator: \<open>onRead\<close> and \<open>onWrite\<close>\<close>

text \<open>
  Both callbacks move the data through \<open>uint8_t tmp[512]\<close>, a buffer on the stack. A C++
  function that stores or loads past the end of \<open>tmp\<close> has no defined behaviour; the model
  gives such a call the outcome \<open>Overrun\<close> instead of a return value.
\<close>

datatype 'a outcome = Returns 'a | Overrun

definition TMP_SIZE :: nat where
  "TMP_SIZE = 512"

text \<open>\<open>SD_MMC.readRAW(tmp, blk)\<close>: the sector's bytes replace the front of \<open>tmp\<close>. The buffer
  is declared without an initialiser; \<open>junk\<close> stands for what it holds before the call.\<close>

datatype fetched = IoFail | TooLong | Tmp "byte list"

definition readRAW_tmp :: "sd_mmc \<Rightarrow> byte list \<Rightarrow> u32 \<Rightarrow> fetched \<times> sd_mmc" where
  "readRAW_tmp m junk blk =
     (case readRAW m blk of
        (None, m1) \<Rightarrow> (IoFail, m1)
      | (Some d, m1) \<Rightarrow>
          if TMP_SIZE < length d then (TooLong, m1) else (Tmp (d @ drop (length d) junk), m1))"

text \<open>
  The \<open>while (remain)\<close> loop of \<open>onRead\<close>. \<open>dst\<close> collects the bytes stored to the host's
  buffer so far. As written the loop need not end: with \<open>sec = 0\<close> and \<open>off = 0\<close> it makes
  no progress, so it is a partial function and \<open>None\<close> stands for not returning. \<open>onRead\<close>
  enters it with \<open>sec \<noteq> 0\<close> only.
\<close>

partial_function (option) read_loop ::
  "sd_mmc \<Rightarrow> byte list \<Rightarrow> u32 \<Rightarrow> u32 \<Rightarrow> u32 \<Rightarrow> u32 \<Rightarrow> u32 \<Rightarrow> byte list
     \<Rightarrow> (u32 outcome \<times> byte list \<times> sd_mmc) option" where
  "read_loop m junk sec bufsize blk off remain dst =
     (if remain = 0 then Some (Returns bufsize, dst, m)
      else case readRAW_tmp m junk blk of
        (IoFail, m1) \<Rightarrow> Some (Returns (- 1), dst, m1)
      | (TooLong, m1) \<Rightarrow> Some (Overrun, dst, m1)
      | (Tmp tmp, m1) \<Rightarrow>
          let chunk = min remain (sec - off) in
          if TMP_SIZE < unat off + unat chunk then Some (Overrun, dst, m1)
          else read_loop m1 junk sec bufsize (blk + 1) 0 (remain - chunk)
                 (dst @ take (unat chunk) (drop (unat off) tmp)))"

declare read_loop.simps [code]

text \<open>\<open>onRead(lba, offset, buffer, bufsize)\<close>. The result is the \<open>int32_t\<close> return value (the
  word \<open>(int32_t)bufsize\<close> or \<open>-1\<close>; \<open>sint\<close> reads it), the bytes stored to \<open>buffer\<close>, and
  the medium.\<close>

definition onRead ::
  "sd_mmc \<Rightarrow> byte list \<Rightarrow> u32 \<Rightarrow> u32 \<Rightarrow> u32 \<Rightarrow> (u32 outcome \<times> byte list \<times> sd_mmc) option" where
  "onRead m junk lba offset bufsize =
     (let sec = sectorSize m in
      if sec = 0 \<or> bufsize = 0 then Some (Returns (- 1), [], m)
      else read_loop m junk sec bufsize lba offset bufsize [])"

text \<open>
  The loop of \<open>onWrite\<close>. \<open>src\<close> is what is left of the host's buffer. A sector that the
  request does not cover completely is read first (\<open>off != 0 || remain < sec\<close>); otherwise
  \<open>tmp\<close> still holds \<open>junk\<close> when the new bytes are copied in.
\<close>

partial_function (option) write_loop ::
  "sd_mmc \<Rightarrow> byte list \<Rightarrow> u32 \<Rightarrow> u32 \<Rightarrow> u32 \<Rightarrow> u32 \<Rightarrow> u32 \<Rightarrow> byte list
     \<Rightarrow> (u32 outcome \<times> sd_mmc) option" where
  "write_loop m junk sec bufsize blk off remain src =
     (if remain = 0 then Some (Returns bufsize, m)
      else case (if off \<noteq> 0 \<or> remain < sec then readRAW_tmp m junk blk else (Tmp junk, m)) of
        (IoFail, m1) \<Rightarrow> Some (Returns (- 1), m1)
      | (TooLong, m1) \<Rightarrow> Some (Overrun, m1)
      | (Tmp tmp, m1) \<Rightarrow>
          let chunk = min remain (sec - off) in
          if TMP_SIZE < unat off + unat chunk then Some (Overrun, m1)
          else case writeRAW m1
                      (take (unat off) tmp @ take (unat chunk) src
                         @ drop (unat off + unat chunk) tmp) blk of
                 (written, m2) \<Rightarrow>
                   if \<not> written then Some (Returns (- 1), m2)
                   else write_loop m2 junk sec bufsize (blk + 1) 0 (remain - chunk)
                          (drop (unat chunk) src))"

declare write_loop.simps [code]

text \<open>\<open>onWrite(lba, offset, buffer, bufsize)\<close>; \<open>buffer\<close> is the list of bytes the pointer
  addresses, which the host's stack guarantees to be \<open>bufsize\<close> long.\<close>

definition onWrite ::
  "sd_mmc \<Rightarrow> byte list \<Rightarrow> u32 \<Rightarrow> u32 \<Rightarrow> byte list \<Rightarrow> u32 \<Rightarrow> (u32 outcome \<times> sd_mmc) option" where
  "onWrite m junk lba offset buffer bufsize =
     (let sec = sectorSize m in
      if sec = 0 \<or> bufsize = 0 then Some (Returns (- 1), m)
      else write_loop m junk sec bufsize lba offset bufsize buffer)"

section \<open>The spec's description of a transfer, sector by sector\<close>

text \<open>
  The definitions of this section follow the words of the spec, not the code; the theorems
  compare them with \<open>onRead\<close> and \<open>onWrite\<close>. Sizes and positions are natural numbers here.

  A medium the translator can serve: it is open, its sector size is positive and at most the
  512 bytes of \<open>tmp\<close>, and every sector holds exactly that many bytes.
\<close>

definition medium_ok :: "sd_mmc \<Rightarrow> bool" where
  "medium_ok m \<longleftrightarrow>
     is_open m \<and> sector_size m \<noteq> 0 \<and> unat (sector_size m) \<le> TMP_SIZE \<and>
     (\<forall>b. length (blocks m b) = unat (sector_size m))"

text \<open>The medium's contents as one string of bytes, sector after sector.\<close>

definition medium_bytes :: "sd_mmc \<Rightarrow> byte list" where
  "medium_bytes m = concat (map (\<lambda>j. blocks m (of_nat j)) [0..<unat (num_sectors m)])"

text \<open>The number of sectors a request touches, \<open>ceil((off + len) / S)\<close>.\<close>

definition sectors_touched :: "nat \<Rightarrow> nat \<Rightarrow> nat \<Rightarrow> nat" where
  "sectors_touched S off len = (off + len + S - 1) div S"

text \<open>For the \<open>i\<close>-th touched sector: the offset inside the sector at which the transfer
  starts (\<open>off\<close> for the first sector, 0 afterwards), the position in the host's buffer of its
  first byte, and the number of bytes moved (the smaller of what remains and what the sector
  holds from that offset on).\<close>

definition sect_off :: "nat \<Rightarrow> nat \<Rightarrow> nat" where
  "sect_off off i = (if i = 0 then off else 0)"

definition sect_pos :: "nat \<Rightarrow> nat \<Rightarrow> nat \<Rightarrow> nat" where
  "sect_pos S off i = i * S - off"

definition sect_len :: "nat \<Rightarrow> nat \<Rightarrow> nat \<Rightarrow> nat \<Rightarrow> nat" where
  "sect_len S off len i = min (len - sect_pos S off i) (S - sect_off off i)"

text \<open>The read algorithm of section 4.2: the pieces copied from the \<open>k\<close> sectors, in order.\<close>

definition read_pieces :: "sd_mmc \<Rightarrow> u32 \<Rightarrow> nat \<Rightarrow> nat \<Rightarrow> nat \<Rightarrow> byte list" where
  "read_pieces m blk off len k =
     concat (map (\<lambda>i. take (sect_len (unat (sector_size m)) off len i)
                        (drop (sect_off off i) (blocks m (blk + of_nat i)))) [0..<k])"

text \<open>A partial sector: the first one when the offset is not zero, or one for which fewer
  than a sector's bytes remain.\<close>

definition partial_sector :: "nat \<Rightarrow> nat \<Rightarrow> nat \<Rightarrow> nat \<Rightarrow> bool" where
  "partial_sector S off len i \<longleftrightarrow> (i = 0 \<and> off \<noteq> 0) \<or> len - sect_pos S off i < S"

text \<open>Splicing new bytes into a sector at a position, and the \<open>i\<close>-th sector of a write
  request after the splice.\<close>

definition spliced :: "byte list \<Rightarrow> nat \<Rightarrow> byte list \<Rightarrow> byte list" where
  "spliced old at new = take at old @ new @ drop (at + length new) old"

definition sector_image :: "nat \<Rightarrow> nat \<Rightarrow> nat \<Rightarrow> byte list \<Rightarrow> byte list \<Rightarrow> nat \<Rightarrow> byte list" where
  "sector_image S off len src old i =
     spliced old (sect_off off i) (take (sect_len S off len i) (drop (sect_pos S off i) src))"

text \<open>The \<open>i\<close>-th sector of a write request commits when its read, if it needs one, and its
  write succeed.\<close>

definition commits :: "sd_mmc \<Rightarrow> nat \<Rightarrow> nat \<Rightarrow> u32 \<Rightarrow> nat \<Rightarrow> bool" where
  "commits m off len blk i \<longleftrightarrow>
     (partial_sector (unat (sector_size m)) off len i \<longrightarrow> read_ok m (blk + of_nat i)) \<and>
     write_ok m (blk + of_nat i)"

text \<open>The calls on the medium for the \<open>i\<close>-th sector of a write request: a read first if the
  sector is partial, then the write of the full sector. For a sector that does not commit:
  the failed read alone, or the same calls with the write failing.\<close>

definition sector_calls :: "sd_mmc \<Rightarrow> nat \<Rightarrow> nat \<Rightarrow> u32 \<Rightarrow> byte list \<Rightarrow> nat \<Rightarrow> sd_call list" where
  "sector_calls m off len blk src i =
     (if partial_sector (unat (sector_size m)) off len i then [ReadRAW (blk + of_nat i)] else [])
     @ [WriteRAW (blk + of_nat i)
          (sector_image (unat (sector_size m)) off len src (blocks m (blk + of_nat i)) i)]"

definition abort_calls :: "sd_mmc \<Rightarrow> nat \<Rightarrow> nat \<Rightarrow> u32 \<Rightarrow> byte list \<Rightarrow> nat \<Rightarrow> sd_call list" where
  "abort_calls m off len blk src i =
     (if partial_sector (unat (sector_size m)) off len i \<and> \<not> read_ok m (blk + of_nat i)
      then [ReadRAW (blk + of_nat i)]
      else sector_calls m off len blk src i)"

text \<open>The medium \<open>m'\<close> after a write request whose first \<open>j\<close> sectors committed: those
  sectors hold their images, every other sector is as before, and the calls made are those of
  the \<open>j\<close> sectors, followed by the calls of the failed sector if the request was aborted.\<close>

definition write_post ::
  "sd_mmc \<Rightarrow> sd_mmc \<Rightarrow> nat \<Rightarrow> nat \<Rightarrow> u32 \<Rightarrow> byte list \<Rightarrow> nat \<Rightarrow> bool \<Rightarrow> bool" where
  "write_post m m' off len blk src j aborted \<longleftrightarrow>
     m' = m\<lparr>blocks := blocks m', trace := trace m'\<rparr> \<and>
     (\<forall>i<j. blocks m' (blk + of_nat i) =
        sector_image (unat (sector_size m)) off len src (blocks m (blk + of_nat i)) i) \<and>
     (\<forall>b. (\<forall>i<j. b \<noteq> blk + of_nat i) \<longrightarrow> blocks m' b = blocks m b) \<and>
     trace m' = trace m @ concat (map (sector_calls m off len blk src) [0..<j])
                  @ (if aborted then abort_calls m off len blk src j else [])"

text \<open>Whether a call is a sector operation on sector \<open>b\<close>.\<close>

fun on_sector :: "u32 \<Rightarrow> sd_call \<Rightarrow> bool" where
  "on_sector b (ReadRAW x) = (x = b)"
| "on_sector b (WriteRAW x d) = (x = b)"
| "on_sector b c = False"

text \<open>When no access of a transfer can leave \<open>tmp\<close>: inside the loops (\<open>fits_tmp\<close>, with
  \<open>sec\<close> the sector size the loop works with) and for a call of \<open>onRead\<close> or \<open>onWrite\<close>
  (\<open>defined_for\<close>; a closed medium reports sector size zero and is never accessed).\<close>

definition fits_tmp :: "sd_mmc \<Rightarrow> u32 \<Rightarrow> u32 \<Rightarrow> bool" where
  "fits_tmp m sec off \<longleftrightarrow>
     sector_size m = sec \<and> unat sec \<le> TMP_SIZE \<and> (\<forall>b. length (blocks m b) \<le> TMP_SIZE) \<and>
     off \<le> sec"

definition defined_for :: "sd_mmc \<Rightarrow> u32 \<Rightarrow> bool" where
  "defined_for m offset \<longleftrightarrow>
     sectorSize m = 0 \<or>
     (unat (sectorSize m) \<le> TMP_SIZE \<and> (\<forall>b. length (blocks m b) \<le> TMP_SIZE) \<and>
      offset \<le> sectorSize m)"

section \<open>Mounting and unmounting\<close>

text \<open>
  Modelled from the spec: the \<open>USBMSC\<close> class object \<open>s_msc\<close> belongs to the platform
  library. The record keeps what \<open>Storage.cpp\<close> configures (the identification strings, the
  three callbacks, the media-present flag, the geometry passed to \<open>begin\<close>) and whether the
  class is running; \<open>starts\<close> says whether \<open>USBMSC::begin\<close> reports success.
\<close>

record usb_msc =
  vendor :: string
  product :: string
  revision :: string
  read_cb :: bool
  write_cb :: bool
  start_stop_cb :: bool
  media_present :: bool
  block_count :: u32
  block_size :: u32
  running :: bool
  starts :: bool

text \<open>Modelled from the spec: \<open>USBMSC::begin(block_count, block_size)\<close>, which starts the
  mass-storage class with the queried geometry and can fail.\<close>

definition msc_begin :: "usb_msc \<Rightarrow> u32 \<Rightarrow> u32 \<Rightarrow> bool \<times> usb_msc" where
  "msc_begin c secCount secSize =
     (starts c, c\<lparr>block_count := secCount, block_size := secSize, running := starts c\<rparr>)"

text \<open>Modelled from the spec: \<open>USBMSC::end()\<close>, which stops the mass-storage class.\<close>

definition msc_end :: "usb_msc \<Rightarrow> usb_msc" where
  "msc_end c = c\<lparr>running := False\<rparr>"

text \<open>The file-level state of \<open>Storage.cpp\<close>: \<open>s_msc\<close>, \<open>s_mounted\<close>, \<open>s_usbOnline\<close>, the
  global \<open>SD_MMC\<close>, the number of \<open>USB.begin()\<close> calls and the milliseconds spent in
  \<open>delay\<close>.\<close>

record storage =
  s_msc :: usb_msc
  s_mounted :: bool
  s_usbOnline :: bool
  SD_MMC :: sd_mmc
  usb_begun :: nat
  delayed :: nat

definition PIN_SD_CLK :: int where "PIN_SD_CLK = 6"
definition PIN_SD_CMD :: int where "PIN_SD_CMD = 5"
definition PIN_SD_D0 :: int where "PIN_SD_D0 = 7"

text \<open>\<open>Storage::mount()\<close>: its boolean result and the state it leaves. The calls on
  \<open>s_msc\<close> set fields of the descriptor; \<open>USB.begin()\<close> is counted.\<close>

definition mount :: "storage \<Rightarrow> bool \<times> storage" where
  "mount st =
     (if s_mounted st then (True, st)
      else
        let (opened, sd) = sdmmc_begin (setPins (SD_MMC st) PIN_SD_CLK PIN_SD_CMD PIN_SD_D0) in
        if \<not> opened then (False, st\<lparr>SD_MMC := sd\<rparr>)
        else if cardType sd = CARD_NONE then (False, st\<lparr>SD_MMC := sdmmc_end sd\<rparr>)
        else
          let msc = (s_msc st)\<lparr>vendor := ''ESP32'', product := ''SD-USB'', revision := ''1.0'',
                                 read_cb := True, write_cb := True, start_stop_cb := True\<rparr>;
              secSize = sectorSize sd;
              secCount = numSectors sd
          in if secSize = 0 \<or> secCount = 0
             then (False, st\<lparr>s_msc := msc, SD_MMC := sdmmc_end sd\<rparr>)
             else
               let (started, msc') = msc_begin (msc\<lparr>media_present := True\<rparr>) secCount secSize in
               if \<not> started then (False, st\<lparr>s_msc := msc', SD_MMC := sdmmc_end sd\<rparr>)
               else (True, st\<lparr>s_msc := msc', SD_MMC := sd, usb_begun := usb_begun st + 1,
                              s_mounted := True\<rparr>))"

text \<open>\<open>Storage::unmount()\<close>: media absent, \<open>delay(50)\<close>, class stopped, \<open>delay(10)\<close>, medium
  closed, \<open>s_mounted\<close> cleared. \<open>USB\<close> is left running.\<close>

definition unmount :: "storage \<Rightarrow> storage" where
  "unmount st =
     (if \<not> s_mounted st then st
      else st\<lparr>s_msc := msc_end ((s_msc st)\<lparr>media_present := False\<rparr>),
              delayed := delayed st + 50 + 10,
              SD_MMC := sdmmc_end (SD_MMC st),
              s_mounted := False\<rparr>)"

definition isMounted :: "storage \<Rightarrow> bool" where
  "isMounted st = s_mounted st"


text \<open>\<open>onStartStop(power_condition, start, load_eject)\<close>, the host's start/stop command.\<close>

definition onStartStop :: "storage \<Rightarrow> byte \<Rightarrow> bool \<Rightarrow> bool \<Rightarrow> bool \<times> storage" where
  "onStartStop st power_condition start load_eject =
     (True, if \<not> start \<and> load_eject then unmount st else st)"






section \<open>Concrete media and states\<close>

text \<open>A card with four-byte sectors whose bytes are numbered 0, 1, 2, ... across the medium,
  and the same card failing every write of sector 2.\<close>

definition tiny_card :: sd_mmc where
  "tiny_card =
     \<lparr>inserted = True, kind = CARD_SD, is_open = True, sector_size = 4, num_sectors = 10,
      blocks = (\<lambda>b. map (\<lambda>i. ucast b * 4 + of_nat i) [0..<4]),
      read_bad = (\<lambda>_. False), write_bad = (\<lambda>_. False), trace = []\<rparr>"

definition flaky_card :: sd_mmc where
  "flaky_card = tiny_card\<lparr>write_bad := (\<lambda>b. b = 2)\<rparr>"

text \<open>The four-byte card failing every read of sector 2.\<close>

definition unreadable_card :: sd_mmc where
  "unreadable_card = tiny_card\<lparr>read_bad := (\<lambda>b. b = 2)\<rparr>"

text \<open>The card of the spec's scenarios: 1000 sectors of 512 bytes, all zero.\<close>

definition card512 :: sd_mmc where
  "card512 =
     \<lparr>inserted = True, kind = CARD_SDHC, is_open = True, sector_size = 512, num_sectors = 1000,
      blocks = (\<lambda>_. replicate 512 0),
      read_bad = (\<lambda>_. False), write_bad = (\<lambda>_. False), trace = []\<rparr>"

text \<open>A card of 512-byte sectors large enough for a request of \<open>2^31\<close> bytes.\<close>

definition big_card :: sd_mmc where
  "big_card =
     \<lparr>inserted = True, kind = CARD_SDHC, is_open = True, sector_size = 512,
      num_sectors = 4294967295, blocks = (\<lambda>_. replicate 512 0),
      read_bad = (\<lambda>_. False), write_bad = (\<lambda>_. False), trace = []\<rparr>"

text \<open>A medium with 1024-byte sectors, and the same medium failing every write of
  sector 1.\<close>

definition card1024 :: sd_mmc where
  "card1024 =
     \<lparr>inserted = True, kind = CARD_SDHC, is_open = True, sector_size = 1024, num_sectors = 1000,
      blocks = (\<lambda>_. replicate 1024 0),
      read_bad = (\<lambda>_. False), write_bad = (\<lambda>_. False), trace = []\<rparr>"

definition flaky1024 :: sd_mmc where
  "flaky1024 = card1024\<lparr>write_bad := (\<lambda>b. b = 1)\<rparr>"

text \<open>The firmware after start-up with no card in the slot, and with the 512-byte card in
  the slot; in both the medium is closed and nothing is mounted.\<close>

definition idle_msc :: usb_msc where
  "idle_msc =
     \<lparr>vendor = [], product = [], revision = [], read_cb = False, write_cb = False,
      start_stop_cb = False, media_present = False, block_count = 0, block_size = 0,
      running = False, starts = True\<rparr>"

definition empty_slot :: storage where
  "empty_slot =
     \<lparr>s_msc = idle_msc, s_mounted = False, s_usbOnline = False,
      SD_MMC = \<lparr>inserted = False, kind = CARD_NONE, is_open = False, sector_size = 0,
                num_sectors = 0, blocks = (\<lambda>_. []), read_bad = (\<lambda>_. False),
                write_bad = (\<lambda>_. False), trace = []\<rparr>,
      usb_begun = 0, delayed = 0\<rparr>"

definition card_inserted :: storage where
  "card_inserted =
     \<lparr>s_msc = idle_msc, s_mounted = False, s_usbOnline = False,
      SD_MMC = card512\<lparr>is_open := False\<rparr>, usb_begun = 0, delayed = 0\<rparr>"


section \<open>Facts about the model\<close>

lemma called_simps [simp]:
  "is_open (called c m) = is_open m" "sector_size (called c m) = sector_size m"
  "num_sectors (called c m) = num_sectors m" "blocks (called c m) = blocks m"
  "read_bad (called c m) = read_bad m" "write_bad (called c m) = write_bad m"
  "inserted (called c m) = inserted m" "kind (called c m) = kind m"
  "trace (called c m) = trace m @ [c]"
  by (simp_all add: called_def)

lemma read_ok_called [simp]: "read_ok (called c m) b = read_ok m b"
  by (simp add: read_ok_def)

lemma write_ok_called [simp]: "write_ok (called c m) b = write_ok m b"
  by (simp add: write_ok_def)

subsection \<open>Induction along the loops\<close>

text \<open>Both loops pass from \<open>(blk, off, remain)\<close> to \<open>(blk + 1, 0, remain - chunk)\<close>. With
  \<open>sec \<noteq> 0\<close> this ends: \<open>chunk\<close> is zero at most once, when \<open>off = sec\<close> in the first
  round.\<close>

lemma xfer_induct [consumes 1, case_names iter]:
  fixes sec :: u32
  assumes nz: "sec \<noteq> 0"
    and step: "\<And>blk off remain.
       (remain \<noteq> 0 \<Longrightarrow> P (blk + 1) 0 (remain - min remain (sec - off))) \<Longrightarrow> P blk off remain"
  shows "P (blk :: u32) (off :: u32) (remain :: u32)"
proof (induction "2 * unat remain + (if off = 0 then 0 else 1)" arbitrary: blk off remain
    rule: less_induct)
  case less
  show ?case
  proof (rule step)
    assume r: "remain \<noteq> 0"
    let ?c = "min remain (sec - off)"
    have le: "?c \<le> remain" by simp
    have "2 * unat (remain - ?c) + 0 < 2 * unat remain + (if off = 0 then 0 else 1)"
    proof (cases "?c = 0")
      case True
      with r have "sec - off = 0" by (simp add: min_def split: if_splits)
      with nz have "off \<noteq> 0" by auto
      with True show ?thesis by simp
    next
      case False
      then have "0 < unat ?c" by (simp add: unat_gt_0)
      moreover have "unat (remain - ?c) = unat remain - unat ?c"
        using le by (simp add: unat_sub)
      moreover have "unat ?c \<le> unat remain" using le by (simp add: word_le_nat_alt)
      ultimately show ?thesis by simp
    qed
    then show "P (blk + 1) 0 (remain - ?c)"
      using less[of "remain - ?c" 0 "blk + 1"] by simp
  qed
qed

subsection \<open>Arithmetic of the sector-by-sector description\<close>

lemma medium_ok_called [simp]: "medium_ok (called c m) = medium_ok m"
  by (simp add: medium_ok_def)

lemma touched_zero [simp]: "sectors_touched S 0 0 = 0"
  by (cases S) (simp_all add: sectors_touched_def)

lemma touched_one: "0 < len \<Longrightarrow> off + len \<le> S \<Longrightarrow> sectors_touched S off len = 1"
  unfolding sectors_touched_def by (rule div_nat_eqI) simp_all

lemma touched_Suc:
  "off < S \<Longrightarrow> S - off < len \<Longrightarrow>
   sectors_touched S off len = Suc (sectors_touched S 0 (len - (S - off)))"
proof -
  assume a: "off < S" "S - off < len"
  then have "off + len + S - 1 = (len - (S - off) + S - 1) + S" by simp
  moreover have "0 < S" using a by simp
  then have "(x + S) div S = Suc (x div S)" for x by (simp add: div_add_self2)
  ultimately show ?thesis unfolding sectors_touched_def by simp
qed

lemma sect_len_0 [simp]: "sect_len S off len 0 = min len (S - off)"
  by (simp add: sect_len_def sect_pos_def sect_off_def)

lemma sect_off_0 [simp]: "sect_off off 0 = off"
  by (simp add: sect_off_def)

lemma sect_off_Suc [simp]: "sect_off off (Suc i) = 0"
  by (simp add: sect_off_def)

lemma sect_off_zero [simp]: "sect_off 0 i = 0"
  by (simp add: sect_off_def)

lemma sect_pos_Suc: "off < S \<Longrightarrow> sect_pos S off (Suc i) = (S - off) + sect_pos S 0 i"
  by (simp add: sect_pos_def)

lemma sect_len_Suc:
  "off < S \<Longrightarrow> S - off < len \<Longrightarrow> sect_len S off len (Suc i) = sect_len S 0 (len - (S - off)) i"
  by (simp add: sect_len_def sect_pos_def sect_off_def)

lemma map_upt_Suc_shift: "map f [0..<Suc k] = f 0 # map (\<lambda>i. f (Suc i)) [0..<k]"
  by (simp add: map_upt_Suc del: upt_Suc)

lemma unat_chunk:
  fixes sec off remain :: u32
  assumes "off < sec"
  shows "unat (min remain (sec - off)) = min (unat remain) (unat sec - unat off)"
proof -
  have "unat (sec - off) = unat sec - unat off"
    using assms by (simp add: unat_sub)
  then show ?thesis by (simp add: min_def word_le_nat_alt)
qed

subsection \<open>The read loop when every read succeeds\<close>

lemma readRAW_tmp_ok:
  "medium_ok m \<Longrightarrow> read_ok m blk \<Longrightarrow>
   readRAW_tmp m junk blk
     = (Tmp (blocks m blk @ drop (unat (sector_size m)) junk), called (ReadRAW blk) m)"
  by (simp add: readRAW_tmp_def readRAW_def medium_ok_def)

lemma read_loop_ok:
  "sec \<noteq> 0 \<Longrightarrow> medium_ok m \<Longrightarrow> sector_size m = sec \<Longrightarrow> off < sec \<Longrightarrow>
   remain \<noteq> 0 \<or> off = 0 \<Longrightarrow>
   \<forall>i < sectors_touched (unat sec) (unat off) (unat remain). read_ok m (blk + of_nat i) \<Longrightarrow>
   read_loop m junk sec bufsize blk off remain dst =
     Some (Returns bufsize,
           dst @ read_pieces m blk (unat off) (unat remain)
                   (sectors_touched (unat sec) (unat off) (unat remain)),
           m\<lparr>trace := trace m @ map (\<lambda>i. ReadRAW (blk + of_nat i))
                 [0..<sectors_touched (unat sec) (unat off) (unat remain)]\<rparr>)"
proof (induction blk off remain arbitrary: m dst rule: xfer_induct)
  case (iter blk off remain)
  let ?S = "unat sec" and ?o = "unat off" and ?n = "unat remain"
  show ?case
  proof (cases "remain = 0")
    case True
    with iter.prems show ?thesis
      by (subst read_loop.simps) (simp add: read_pieces_def)
  next
    case False
    let ?c = "min remain (sec - off)"
    have oS: "?o < ?S" using iter.prems(3) by (simp add: word_less_nat_alt)
    have npos: "0 < ?n" using False by (simp add: unat_gt_0)
    have c: "unat ?c = min ?n (?S - ?o)" using iter.prems(3) by (rule unat_chunk)
    have cle: "?c \<le> remain" by simp
    have n': "unat (remain - ?c) = ?n - unat ?c" using cle by (simp add: unat_sub)
    have S512: "?S \<le> TMP_SIZE" and len: "\<And>b. length (blocks m b) = ?S"
      using iter.prems(1,2) by (auto simp: medium_ok_def)
    show ?thesis
    proof (cases "?n \<le> ?S - ?o")
      case True
      then have k: "sectors_touched ?S ?o ?n = 1"
        using npos oS by (intro touched_one) simp_all
      have r0: "read_ok m blk" using iter.prems(5)[rule_format, of 0] k by simp
      have c0: "unat ?c = ?n" using c True by simp
      have z: "remain - ?c = 0" using n' c0 by (simp add: unat_eq_0[symmetric] del: unat_eq_0)
      show ?thesis
        apply (subst read_loop.simps)
        apply (simp add: False readRAW_tmp_ok[OF iter.prems(1) r0] iter.prems(2) Let_def)
        apply (subst read_loop.simps)
        using True oS S512 len
        apply (simp add: z c0 k read_pieces_def iter.prems(2) called_def)
        done
    next
      case gt: False
      then have big: "?S - ?o < ?n" by simp
      have k: "sectors_touched ?S ?o ?n = Suc (sectors_touched ?S 0 (?n - (?S - ?o)))"
        using oS big by (rule touched_Suc)
      have r0: "read_ok m blk" using iter.prems(5)[rule_format, of 0] k by simp
      have c0: "unat ?c = ?S - ?o" using c big by simp
      have n'': "unat (remain - ?c) = ?n - (?S - ?o)" using n' c0 by simp
      let ?m1 = "called (ReadRAW blk) m"
      have rest: "\<forall>i < sectors_touched (unat sec) (unat (0::u32)) (unat (remain - ?c)).
                    read_ok ?m1 (blk + 1 + of_nat i)"
      proof (intro allI impI)
        fix i assume "i < sectors_touched (unat sec) (unat (0::u32)) (unat (remain - ?c))"
        then have "Suc i < sectors_touched ?S ?o ?n" using k n'' by simp
        then have "read_ok m (blk + of_nat (Suc i))" using iter.prems(5) by blast
        then show "read_ok ?m1 (blk + 1 + of_nat i)" by (simp add: add.assoc)
      qed
      have IH: "read_loop ?m1 junk sec bufsize (blk + 1) 0 (remain - ?c) dst' =
          Some (Returns bufsize,
           dst' @ read_pieces ?m1 (blk + 1) (unat (0::u32)) (unat (remain - ?c))
                   (sectors_touched (unat sec) (unat (0::u32)) (unat (remain - ?c))),
           ?m1\<lparr>trace := trace ?m1 @ map (\<lambda>i. ReadRAW (blk + 1 + of_nat i))
                 [0..<sectors_touched (unat sec) (unat (0::u32)) (unat (remain - ?c))]\<rparr>)" for dst'
        using iter.prems(1,2,3) False rest
        by (intro iter.IH) (auto simp: word_gt_0)
      show ?thesis
        apply (subst read_loop.simps)
        apply (simp add: False readRAW_tmp_ok[OF iter.prems(1) r0] iter.prems(2) Let_def)
        using oS S512 len big
        apply (simp add: c0 IH)
        apply (simp add: n'' k read_pieces_def iter.prems(2) called_def
            map_upt_Suc_shift sect_len_Suc add.assoc del: upt_Suc)
        done
    qed
  qed
qed

subsection \<open>One round of the write loop\<close>

lemma sect_pos_0 [simp]: "sect_pos S off 0 = 0"
  by (simp add: sect_pos_def)

lemma partial_sector_0: "partial_sector S off len 0 \<longleftrightarrow> off \<noteq> 0 \<or> len < S"
  by (simp add: partial_sector_def)

lemma writeRAW_ok:
  "write_ok m blk \<Longrightarrow>
   writeRAW m buf blk =
     (True, m\<lparr>blocks := (blocks m)(blk := take (unat (sector_size m)) buf),
              trace := trace m @ [WriteRAW blk (take (unat (sector_size m)) buf)]\<rparr>)"
  by (simp add: writeRAW_def called_def Let_def)

lemma writeRAW_fail:
  "\<not> write_ok m blk \<Longrightarrow>
   writeRAW m buf blk =
     (False, m\<lparr>trace := trace m @ [WriteRAW blk (take (unat (sector_size m)) buf)]\<rparr>)"
  by (simp add: writeRAW_def called_def Let_def)

lemma readRAW_tmp_fail:
  "\<not> read_ok m blk \<Longrightarrow> readRAW_tmp m junk blk = (IoFail, called (ReadRAW blk) m)"
  by (simp add: readRAW_tmp_def readRAW_def)

text \<open>What \<open>tmp\<close> holds when \<open>writeRAW\<close> is called, for the sector at the head of the request.\<close>

lemma take_whole_prefix: "length xs = n \<Longrightarrow> take n (xs @ ys) = xs"
  by simp

lemma tmp_image_rmw:
  assumes "length old = S" "off + c \<le> S" "c \<le> length src"
  shows "take S (take off (old @ rest) @ take c src @ drop (off + c) (old @ rest))
         = spliced old off (take c src)"
proof -
  let ?X = "take off old @ take c src @ drop (off + c) old"
  have A: "take off (old @ rest) = take off old" using assms by simp
  have B: "drop (off + c) (old @ rest) = drop (off + c) old @ rest" using assms by simp
  have E: "take off (old @ rest) @ take c src @ drop (off + c) (old @ rest) = ?X @ rest"
    by (simp only: A B append_assoc)
  have L: "length ?X = S" using assms by simp
  have C: "length (take c src) = c" using assms by simp
  show ?thesis unfolding spliced_def C E by (rule take_whole_prefix[OF L])
qed

lemma tmp_image_full:
  assumes "length old = S" "S \<le> length src"
  shows "take S (take 0 junk @ take S src @ drop (0 + S) junk) = spliced old 0 (take S src)"
  using assms by (simp add: spliced_def)

lemma write_loop_next:
  assumes "remain \<noteq> 0"
    and "(if off \<noteq> 0 \<or> remain < sec then readRAW_tmp m junk blk else (Tmp junk, m)) = (Tmp tmp, m1)"
    and "\<not> TMP_SIZE < unat off + unat (min remain (sec - off))"
    and "writeRAW m1 (take (unat off) tmp @ take (unat (min remain (sec - off))) src
                       @ drop (unat off + unat (min remain (sec - off))) tmp) blk = (True, m2)"
  shows "write_loop m junk sec bufsize blk off remain src =
         write_loop m2 junk sec bufsize (blk + 1) 0 (remain - min remain (sec - off))
           (drop (unat (min remain (sec - off))) src)"
  by (subst write_loop.simps) (simp only: assms if_False Let_def prod.case fetched.case not_True_eq_False)

lemma write_loop_write_failed:
  assumes "remain \<noteq> 0"
    and "(if off \<noteq> 0 \<or> remain < sec then readRAW_tmp m junk blk else (Tmp junk, m)) = (Tmp tmp, m1)"
    and "\<not> TMP_SIZE < unat off + unat (min remain (sec - off))"
    and "writeRAW m1 (take (unat off) tmp @ take (unat (min remain (sec - off))) src
                       @ drop (unat off + unat (min remain (sec - off))) tmp) blk = (False, m2)"
  shows "write_loop m junk sec bufsize blk off remain src = Some (Returns (- 1), m2)"
  by (subst write_loop.simps) (simp only: assms if_False if_True Let_def prod.case fetched.case not_False_eq_True)

lemma write_loop_read_failed:
  assumes "remain \<noteq> 0"
    and "(if off \<noteq> 0 \<or> remain < sec then readRAW_tmp m junk blk else (Tmp junk, m)) = (IoFail, m1)"
  shows "write_loop m junk sec bufsize blk off remain src = Some (Returns (- 1), m1)"
  by (subst write_loop.simps) (simp only: assms if_False Let_def prod.case fetched.case)

lemma write_loop_commit:
  assumes ok: "medium_ok m" and sec: "sector_size m = sec" and off: "off < sec"
    and r: "remain \<noteq> 0" and src: "unat remain \<le> length src"
    and c: "commits m (unat off) (unat remain) blk 0"
  shows "write_loop m junk sec bufsize blk off remain src =
         write_loop (m\<lparr>blocks := (blocks m)(blk :=
                          sector_image (unat sec) (unat off) (unat remain) src (blocks m blk) 0),
                       trace := trace m @ sector_calls m (unat off) (unat remain) blk src 0\<rparr>)
           junk sec bufsize (blk + 1) 0 (remain - min remain (sec - off))
           (drop (min (unat remain) (unat sec - unat off)) src)"
proof -
  let ?S = "unat sec" and ?o = "unat off" and ?n = "unat remain"
  let ?c = "min ?n (?S - ?o)"
  let ?img = "sector_image ?S ?o ?n src (blocks m blk) 0"
  have oS: "?o < ?S" using off by (simp add: word_less_nat_alt)
  have ch: "unat (min remain (sec - off)) = ?c" using off by (rule unat_chunk)
  have S512: "?S \<le> TMP_SIZE" and len: "\<And>b. length (blocks m b) = ?S"
    using ok sec by (auto simp: medium_ok_def)
  have guard: "\<not> TMP_SIZE < ?o + ?c" using oS S512 by simp
  have w: "write_ok m blk" using c by (simp add: commits_def)
  have imgdef: "?img = spliced (blocks m blk) ?o (take ?c src)"
    by (simp add: sector_image_def)
  show ?thesis
  proof (cases "off \<noteq> 0 \<or> remain < sec")
    case True
    then have p: "partial_sector ?S ?o ?n 0"
      by (auto simp: partial_sector_0 word_less_nat_alt unat_eq_0)
    then have rd: "read_ok m blk" using c sec by (simp add: commits_def)
    let ?tmp = "blocks m blk @ drop ?S junk"
    let ?m1 = "called (ReadRAW blk) m"
    have f: "(if off \<noteq> 0 \<or> remain < sec then readRAW_tmp m junk blk else (Tmp junk, m))
             = (Tmp ?tmp, ?m1)"
      using True readRAW_tmp_ok[OF ok rd] sec by simp
    have img: "take ?S (take ?o ?tmp @ take ?c src @ drop (?o + ?c) ?tmp) = ?img"
      unfolding imgdef using len oS src by (intro tmp_image_rmw) simp_all
    define buf where "buf = take ?o ?tmp @ take ?c src @ drop (?o + ?c) ?tmp"
    have w1: "write_ok ?m1 blk" using w by simp
    have img': "take ?S buf = ?img" unfolding buf_def by (rule img)
    have "writeRAW ?m1 buf blk
              = (True, m\<lparr>blocks := (blocks m)(blk := ?img),
                         trace := trace m @ sector_calls m ?o ?n blk src 0\<rparr>)"
      using img' sec p
      by (subst writeRAW_ok[OF w1]) (simp add: sector_calls_def called_def)
    then have wr: "writeRAW ?m1 (take ?o ?tmp @ take ?c src @ drop (?o + ?c) ?tmp) blk
              = (True, m\<lparr>blocks := (blocks m)(blk := ?img),
                         trace := trace m @ sector_calls m ?o ?n blk src 0\<rparr>)"
      unfolding buf_def .
    show ?thesis
      using write_loop_next[OF r f, unfolded ch, OF guard wr] .
  next
    case False
    then have o0: "off = 0" and full: "?S \<le> ?n" by (auto simp: word_less_nat_alt not_less)
    then have p: "\<not> partial_sector ?S ?o ?n 0" by (simp add: partial_sector_0)
    have f: "(if off \<noteq> 0 \<or> remain < sec then readRAW_tmp m junk blk else (Tmp junk, m))
             = (Tmp junk, m)"
      using False by simp
    have c': "?c = ?S" "?o = 0" "min ?n (?S - 0) = ?S" using full o0 by simp_all
    have full': "?S \<le> length src" using full src by simp
    have "take ?S (take 0 junk @ take ?S src @ drop (0 + ?S) junk)
          = spliced (blocks m blk) 0 (take ?S src)"
      by (rule tmp_image_full[OF len full'])
    then have img: "take ?S (take ?o junk @ take ?c src @ drop (?o + ?c) junk) = ?img"
      by (subst imgdef) (simp only: c')
    define buf where "buf = take ?o junk @ take ?c src @ drop (?o + ?c) junk"
    have img': "take ?S buf = ?img" unfolding buf_def by (rule img)
    have "writeRAW m buf blk
              = (True, m\<lparr>blocks := (blocks m)(blk := ?img),
                         trace := trace m @ sector_calls m ?o ?n blk src 0\<rparr>)"
      using img' sec p
      by (simp add: writeRAW_ok[OF w] sector_calls_def)
    then have wr: "writeRAW m (take ?o junk @ take ?c src @ drop (?o + ?c) junk) blk
              = (True, m\<lparr>blocks := (blocks m)(blk := ?img),
                         trace := trace m @ sector_calls m ?o ?n blk src 0\<rparr>)"
      unfolding buf_def .
    show ?thesis
      using write_loop_next[OF r f, unfolded ch, OF guard wr] .
  qed
qed

lemma write_loop_abort:
  assumes ok: "medium_ok m" and sec: "sector_size m = sec" and off: "off < sec"
    and r: "remain \<noteq> 0" and src: "unat remain \<le> length src"
    and c: "\<not> commits m (unat off) (unat remain) blk 0"
  shows "write_loop m junk sec bufsize blk off remain src =
         Some (Returns (- 1), m\<lparr>trace := trace m @ abort_calls m (unat off) (unat remain) blk src 0\<rparr>)"
proof -
  let ?S = "unat sec" and ?o = "unat off" and ?n = "unat remain"
  let ?c = "min ?n (?S - ?o)"
  let ?img = "sector_image ?S ?o ?n src (blocks m blk) 0"
  have oS: "?o < ?S" using off by (simp add: word_less_nat_alt)
  have ch: "unat (min remain (sec - off)) = ?c" using off by (rule unat_chunk)
  have S512: "?S \<le> TMP_SIZE" and len: "\<And>b. length (blocks m b) = ?S"
    using ok sec by (auto simp: medium_ok_def)
  have guard: "\<not> TMP_SIZE < ?o + ?c" using oS S512 by simp
  have imgdef: "?img = spliced (blocks m blk) ?o (take ?c src)"
    by (simp add: sector_image_def)
  show ?thesis
  proof (cases "off \<noteq> 0 \<or> remain < sec")
    case True
    then have p: "partial_sector ?S ?o ?n 0"
      by (auto simp: partial_sector_0 word_less_nat_alt unat_eq_0)
    show ?thesis
    proof (cases "read_ok m blk")
      case rd: True
      then have w: "\<not> write_ok m blk" using c p sec by (simp add: commits_def)
      let ?tmp = "blocks m blk @ drop ?S junk"
      let ?m1 = "called (ReadRAW blk) m"
      have f: "(if off \<noteq> 0 \<or> remain < sec then readRAW_tmp m junk blk else (Tmp junk, m))
               = (Tmp ?tmp, ?m1)"
        using True readRAW_tmp_ok[OF ok rd] sec by simp
      have img: "take ?S (take ?o ?tmp @ take ?c src @ drop (?o + ?c) ?tmp) = ?img"
        unfolding imgdef using len oS src by (intro tmp_image_rmw) simp_all
      define buf where "buf = take ?o ?tmp @ take ?c src @ drop (?o + ?c) ?tmp"
      have w1: "\<not> write_ok ?m1 blk" using w by simp
      have img': "take ?S buf = ?img" unfolding buf_def by (rule img)
      have "writeRAW ?m1 buf blk
              = (False, m\<lparr>trace := trace m @ abort_calls m ?o ?n blk src 0\<rparr>)"
        using img' sec p rd
        by (subst writeRAW_fail[OF w1]) (simp add: abort_calls_def sector_calls_def called_def)
      then have wr: "writeRAW ?m1 (take ?o ?tmp @ take ?c src @ drop (?o + ?c) ?tmp) blk
              = (False, m\<lparr>trace := trace m @ abort_calls m ?o ?n blk src 0\<rparr>)"
        unfolding buf_def .
      show ?thesis
        using write_loop_write_failed[OF r f, unfolded ch, OF guard wr] .
    next
      case rd: False
      have f: "(if off \<noteq> 0 \<or> remain < sec then readRAW_tmp m junk blk else (Tmp junk, m))
               = (IoFail, m\<lparr>trace := trace m @ abort_calls m ?o ?n blk src 0\<rparr>)"
        using True readRAW_tmp_fail[OF rd] sec p rd by (simp add: abort_calls_def called_def)
      show ?thesis using write_loop_read_failed[OF r f] .
    qed
  next
    case False
    then have o0: "off = 0" and full: "?S \<le> ?n" by (auto simp: word_less_nat_alt not_less)
    then have p: "\<not> partial_sector ?S ?o ?n 0" by (simp add: partial_sector_0)
    then have w: "\<not> write_ok m blk" using c sec by (simp add: commits_def)
    have f: "(if off \<noteq> 0 \<or> remain < sec then readRAW_tmp m junk blk else (Tmp junk, m))
             = (Tmp junk, m)"
      using False by simp
    have c': "?c = ?S" "?o = 0" "min ?n (?S - 0) = ?S" using full o0 by simp_all
    have full': "?S \<le> length src" using full src by simp
    have "take ?S (take 0 junk @ take ?S src @ drop (0 + ?S) junk)
          = spliced (blocks m blk) 0 (take ?S src)"
      by (rule tmp_image_full[OF len full'])
    then have img: "take ?S (take ?o junk @ take ?c src @ drop (?o + ?c) junk) = ?img"
      by (subst imgdef) (simp only: c')
    define buf where "buf = take ?o junk @ take ?c src @ drop (?o + ?c) junk"
    have img': "take ?S buf = ?img" unfolding buf_def by (rule img)
    have "writeRAW m buf blk
              = (False, m\<lparr>trace := trace m @ abort_calls m ?o ?n blk src 0\<rparr>)"
      using img' sec p
      by (subst writeRAW_fail[OF w]) (simp add: abort_calls_def sector_calls_def)
    then have wr: "writeRAW m (take ?o junk @ take ?c src @ drop (?o + ?c) junk) blk
              = (False, m\<lparr>trace := trace m @ abort_calls m ?o ?n blk src 0\<rparr>)"
      unfolding buf_def .
    show ?thesis
      using write_loop_write_failed[OF r f, unfolded ch, OF guard wr] .
  qed
qed

subsection \<open>Sector numbers\<close>

lemma u32_bound: "unat (N :: u32) < 4294967296"
  using unsigned_less[of N, where 'a = nat] by simp

lemma no_wrap:
  fixes blk N :: u32
  assumes "\<forall>i<j. blk + of_nat i < N" and "i \<le> j"
  shows "unat (blk + of_nat i) = unat blk + i"
  using assms(2)
proof (induction i)
  case 0
  show ?case by simp
next
  case (Suc i)
  then have IH: "unat (blk + of_nat i) = unat blk + i" by simp
  have "blk + of_nat i < N" using assms(1) Suc.prems by simp
  then have "unat (blk + of_nat i) < unat N" by (simp only: word_less_nat_alt)
  then have "unat (blk + of_nat i) + 1 < 4294967296" using u32_bound[of N] by linarith
  then have "unat (blk + of_nat i) + unat (1::u32) < 2 ^ LENGTH(32)" by simp
  then have "unat ((blk + of_nat i) + 1) = unat (blk + of_nat i) + unat (1::u32)"
    by (simp only: unat_add_lem)
  moreover have "blk + of_nat (Suc i) = (blk + of_nat i) + 1" by (simp add: add.assoc)
  ultimately show ?case using IH by (simp only: unat_1)
qed

lemma sectors_distinct:
  fixes blk N :: u32
  assumes "\<forall>i<j. blk + of_nat i < N" and "i \<le> j" and "i' \<le> j"
    and "blk + of_nat i = blk + of_nat i'"
  shows "i = i'"
proof -
  have "unat (blk + of_nat i) = unat (blk + of_nat i')" by (simp only: assms(4))
  then have "unat blk + i = unat blk + i'"
    by (simp only: no_wrap[OF assms(1,2)] no_wrap[OF assms(1,3)])
  then show ?thesis by simp
qed

subsection \<open>The write loop, sector after sector\<close>

lemma word_Suc: "(blk :: u32) + of_nat (Suc i) = blk + 1 + of_nat i"
  by (simp add: add.assoc)

lemma partial_sector_Suc:
  "off < S \<Longrightarrow> S - off < len \<Longrightarrow>
   partial_sector S off len (Suc i) = partial_sector S 0 (len - (S - off)) i"
  by (simp add: partial_sector_def sect_pos_def)

lemma sector_image_Suc:
  "off < S \<Longrightarrow> S - off < len \<Longrightarrow>
   sector_image S off len src old (Suc i) =
   sector_image S 0 (len - (S - off)) (drop (S - off) src) old i"
  by (simp add: sector_image_def sect_len_Suc sect_pos_Suc add.commute)

lemma length_spliced:
  "at + length new \<le> length old \<Longrightarrow> length (spliced old at new) = length old"
  by (simp add: spliced_def)

lemma length_sector_image_0:
  assumes "length old = S" "off < S" "len \<le> length src"
  shows "length (sector_image S off len src old 0) = S"
proof -
  have "length (take (min len (S - off)) src) = min len (S - off)" using assms by simp
  then have "off + length (take (min len (S - off)) src) \<le> length old" using assms by simp
  then show ?thesis
    unfolding sector_image_def sect_off_0 sect_len_0 sect_pos_0 drop_0
    using assms(1) by (simp only: length_spliced)
qed

lemma write_post_Suc:
  assumes m2: "m2 = m\<lparr>blocks := (blocks m)(blk := sector_image S off len src (blocks m blk) 0),
                        trace := trace m @ sector_calls m off len blk src 0\<rparr>"
    and S: "S = unat (sector_size m)" and oS: "off < S" and big: "S - off < len"
    and dist: "\<forall>i\<le>j. blk + 1 + of_nat i \<noteq> blk"
    and post: "write_post m2 m' 0 (len - (S - off)) (blk + 1) (drop (S - off) src) j ab"
  shows "write_post m m' off len blk src (Suc j) ab"
proof -
  let ?len' = "len - (S - off)" and ?src' = "drop (S - off) src"
  have S2: "unat (sector_size m2) = S" using m2 S by simp
  have b2: "blocks m2 b = blocks m b" if "b \<noteq> blk" for b using m2 that by simp
  have b2blk: "blocks m2 blk = sector_image S off len src (blocks m blk) 0" using m2 by simp
  have ro: "read_ok m2 b = read_ok m b" for b using m2 by (simp add: read_ok_def)
  have p1: "m' = m2\<lparr>blocks := blocks m', trace := trace m'\<rparr>"
    and p2: "\<And>i. i < j \<Longrightarrow> blocks m' (blk + 1 + of_nat i) =
              sector_image S 0 ?len' ?src' (blocks m2 (blk + 1 + of_nat i)) i"
    and p3: "\<And>b. (\<forall>i<j. b \<noteq> blk + 1 + of_nat i) \<Longrightarrow> blocks m' b = blocks m2 b"
    and p4: "trace m' = trace m2 @ concat (map (sector_calls m2 0 ?len' (blk + 1) ?src') [0..<j])
                  @ (if ab then abort_calls m2 0 ?len' (blk + 1) ?src' j else [])"
    using post unfolding write_post_def S2 by blast+
  have calls: "sector_calls m2 0 ?len' (blk + 1) ?src' i = sector_calls m off len blk src (Suc i)"
    if "i \<le> j" for i
  proof -
    have "blk + 1 + of_nat i \<noteq> blk" using dist that by simp
    then have "blocks m2 (blk + 1 + of_nat i) = blocks m (blk + 1 + of_nat i)" by (rule b2)
    then show ?thesis
      unfolding sector_calls_def S2 S[symmetric] word_Suc
      by (simp only: partial_sector_Suc[OF oS big] sector_image_Suc[OF oS big])
  qed
  have q1: "m' = m\<lparr>blocks := blocks m', trace := trace m'\<rparr>"
    by (subst p1) (simp add: m2)
  have q2: "blocks m' (blk + of_nat i) = sector_image S off len src (blocks m (blk + of_nat i)) i"
    if "i < Suc j" for i
  proof (cases i)
    case 0
    have "\<forall>i<j. blk \<noteq> blk + 1 + of_nat i" using dist by (metis less_imp_le)
    then have "blocks m' blk = blocks m2 blk" by (rule p3)
    then show ?thesis using 0 b2blk by simp
  next
    case (Suc i')
    then have i': "i' < j" using that by simp
    have "blk + 1 + of_nat i' \<noteq> blk" using dist i' by simp
    then have "blocks m2 (blk + 1 + of_nat i') = blocks m (blk + 1 + of_nat i')" by (rule b2)
    then show ?thesis
      unfolding Suc word_Suc using p2[OF i'] by (simp only: sector_image_Suc[OF oS big])
  qed
  have q3: "blocks m' b = blocks m b" if "\<forall>i<Suc j. b \<noteq> blk + of_nat i" for b
  proof -
    have "b \<noteq> blk" using that[rule_format, of 0] by simp
    moreover have "\<forall>i<j. b \<noteq> blk + 1 + of_nat i"
    proof (intro allI impI)
      fix i assume "i < j"
      then show "b \<noteq> blk + 1 + of_nat i" using that[rule_format, of "Suc i"]
        by (simp only: word_Suc Suc_less_eq) simp
    qed
    ultimately show ?thesis using p3 b2 by simp
  qed
  have maps: "map (sector_calls m2 0 ?len' (blk + 1) ?src') [0..<j]
              = map (\<lambda>i. sector_calls m off len blk src (Suc i)) [0..<j]"
    by (rule map_cong) (simp_all add: calls)
  have ab: "abort_calls m2 0 ?len' (blk + 1) ?src' j = abort_calls m off len blk src (Suc j)"
    unfolding abort_calls_def S2 S[symmetric] ro word_Suc
    by (simp only: partial_sector_Suc[OF oS big] calls[OF le_refl] flip: word_Suc)
  have q4: "trace m' = trace m @ concat (map (sector_calls m off len blk src) [0..<Suc j])
                  @ (if ab then abort_calls m off len blk src (Suc j) else [])"
    unfolding p4 maps ab map_upt_Suc_shift[of "sector_calls m off len blk src" j]
    by (simp add: m2)
  show ?thesis
    unfolding write_post_def S[symmetric] using q1 q2 q3 q4 by blast
qed

lemma write_post_refl: "write_post m m off len blk src 0 False"
  by (simp add: write_post_def)

lemma write_post_abort0:
  "write_post m (m\<lparr>trace := trace m @ abort_calls m off len blk src 0\<rparr>) off len blk src 0 True"
  by (simp add: write_post_def)

lemma write_post_one:
  "write_post m (m\<lparr>blocks := (blocks m)(blk :=
                      sector_image (unat (sector_size m)) off len src (blocks m blk) 0),
                   trace := trace m @ sector_calls m off len blk src 0\<rparr>) off len blk src (Suc 0) False"
  by (simp add: write_post_def)

lemma commits_range:
  assumes "\<forall>i<j. commits m off len blk i"
  shows "\<forall>i<j. blk + of_nat i < num_sectors m"
  using assms by (simp add: commits_def write_ok_def)

lemma write_loop_run:
  "sec \<noteq> 0 \<Longrightarrow> medium_ok m \<Longrightarrow> sector_size m = sec \<Longrightarrow> off < sec \<Longrightarrow>
   remain \<noteq> 0 \<or> off = 0 \<Longrightarrow> unat remain \<le> length src \<Longrightarrow>
   j \<le> sectors_touched (unat sec) (unat off) (unat remain) \<Longrightarrow>
   \<forall>i<j. commits m (unat off) (unat remain) blk i \<Longrightarrow>
   (j < sectors_touched (unat sec) (unat off) (unat remain) \<longrightarrow>
      \<not> commits m (unat off) (unat remain) blk j) \<Longrightarrow>
   \<exists>m'. write_loop m junk sec bufsize blk off remain src =
           Some (Returns (if j = sectors_touched (unat sec) (unat off) (unat remain)
                          then bufsize else - 1), m') \<and>
        write_post m m' (unat off) (unat remain) blk src j
          (j < sectors_touched (unat sec) (unat off) (unat remain))"
proof (induction blk off remain arbitrary: m src j rule: xfer_induct)
  case (iter blk off remain)
  let ?S = "unat sec" and ?o = "unat off" and ?n = "unat remain"
  let ?k = "sectors_touched ?S ?o ?n"
  note ok = iter.prems(1) and sec = iter.prems(2) and off = iter.prems(3)
    and src = iter.prems(5) and jk = iter.prems(6) and com = iter.prems(7) and stop = iter.prems(8)
  show ?case
  proof (cases "remain = 0")
    case True
    then have "off = 0" using iter.prems(4) by simp
    then have k0: "?k = 0" using True by simp
    then have j0: "j = 0" using jk by simp
    have "write_loop m junk sec bufsize blk off remain src = Some (Returns bufsize, m)"
      using True by (subst write_loop.simps) simp
    then show ?thesis using k0 j0 write_post_refl by auto
  next
    case r: False
    let ?c = "min remain (sec - off)"
    have oS: "?o < ?S" using off by (simp add: word_less_nat_alt)
    have npos: "0 < ?n" using r by (simp add: unat_gt_0)
    have c: "unat ?c = min ?n (?S - ?o)" using off by (rule unat_chunk)
    have n': "unat (remain - ?c) = ?n - unat ?c" by (simp add: unat_sub)
    have S512: "?S \<le> TMP_SIZE" and len: "\<And>b. length (blocks m b) = ?S"
      using ok sec by (auto simp: medium_ok_def)
    have kpos: "0 < ?k"
    proof (cases "?n \<le> ?S - ?o")
      case True then show ?thesis using touched_one[of ?n ?o ?S] npos oS by simp
    next
      case False then show ?thesis using touched_Suc[of ?o ?S ?n] oS by simp
    qed
    show ?thesis
    proof (cases j)
      case 0
      then have "\<not> commits m ?o ?n blk 0" using stop kpos by simp
      from write_loop_abort[OF ok sec off r src this]
      show ?thesis using 0 kpos write_post_abort0 by auto
    next
      case (Suc j')
      then have c0: "commits m ?o ?n blk 0" using com by simp
      let ?img = "sector_image ?S ?o ?n src (blocks m blk) 0"
      define m2 where "m2 = m\<lparr>blocks := (blocks m)(blk := ?img),
                              trace := trace m @ sector_calls m ?o ?n blk src 0\<rparr>"
      have step: "write_loop m junk sec bufsize blk off remain src =
                  write_loop m2 junk sec bufsize (blk + 1) 0 (remain - ?c)
                    (drop (min ?n (?S - ?o)) src)"
        unfolding m2_def by (rule write_loop_commit[OF ok sec off r src c0])
      show ?thesis
      proof (cases "?n \<le> ?S - ?o")
        case True
        then have k: "?k = 1" using npos oS by (intro touched_one) simp_all
        then have j1: "j = Suc 0" using jk Suc by simp
        have "unat ?c = ?n" using c True by simp
        then have z: "remain - ?c = 0" using n' by (simp add: unat_eq_0[symmetric] del: unat_eq_0)
        have "write_loop m junk sec bufsize blk off remain src = Some (Returns bufsize, m2)"
          unfolding step z by (subst write_loop.simps) simp
        moreover have "write_post m m2 ?o ?n blk src (Suc 0) False"
          unfolding m2_def using write_post_one[where m = m and blk = blk and off = ?o and len = ?n and src = src] sec
          by simp
        ultimately show ?thesis using k j1 by auto
      next
        case gt: False
        then have big: "?S - ?o < ?n" by simp
        let ?n' = "?n - (?S - ?o)" and ?src' = "drop (?S - ?o) src"
        let ?k' = "sectors_touched ?S 0 ?n'"
        have k: "?k = Suc ?k'" using oS big by (rule touched_Suc)
        have cc: "unat ?c = ?S - ?o" using c big by simp
        have n'': "unat (remain - ?c) = ?n'" using n' cc by simp
        have mn: "min ?n (?S - ?o) = ?S - ?o" using big by simp
        have S2: "sector_size m2 = sec" using sec by (simp add: m2_def)
        have "length ?img = ?S" using len oS src by (intro length_sector_image_0) simp_all
        then have ok2: "medium_ok m2" using ok len sec by (simp add: medium_ok_def m2_def)
        have rng: "\<forall>i<j. blk + of_nat i < num_sectors m" using com by (rule commits_range)
        have dist: "\<forall>i\<le>j'. blk + 1 + of_nat i \<noteq> blk"
        proof (intro allI impI)
          fix i assume "i \<le> j'"
          then have "Suc i \<le> j" using Suc by simp
          from no_wrap[OF rng this] have ne: "unat (blk + of_nat (Suc i)) \<noteq> unat blk" by simp
          show "blk + 1 + of_nat i \<noteq> blk"
          proof
            assume "blk + 1 + of_nat i = blk"
            then have "unat (blk + of_nat (Suc i)) = unat blk" unfolding word_Suc by (simp only:)
            with ne show False ..
          qed
        qed
        have shift: "commits m2 0 (unat (remain - ?c)) (blk + 1) i
                     = commits m ?o ?n blk (Suc i)" for i
          unfolding commits_def n'' S2 sec word_Suc
          by (simp add: partial_sector_Suc[OF oS big] read_ok_def write_ok_def m2_def)
        have "\<exists>m'. write_loop m2 junk sec bufsize (blk + 1) 0 (remain - ?c) ?src' =
                Some (Returns (if j' = sectors_touched ?S (unat (0::u32)) (unat (remain - ?c))
                               then bufsize else - 1), m') \<and>
              write_post m2 m' (unat (0::u32)) (unat (remain - ?c)) (blk + 1) ?src' j'
                (j' < sectors_touched ?S (unat (0::u32)) (unat (remain - ?c)))"
        proof (rule iter.IH[OF r ok2 S2])
          show "0 < sec" using off by (auto simp: word_gt_0)
          show "remain - ?c \<noteq> 0 \<or> (0::u32) = 0" by simp
          show "unat (remain - ?c) \<le> length ?src'" using n'' src by simp
          show "j' \<le> sectors_touched ?S (unat (0::u32)) (unat (remain - ?c))"
            using jk k Suc n'' by simp
          show "\<forall>i<j'. commits m2 (unat (0::u32)) (unat (remain - ?c)) (blk + 1) i"
            using com Suc by (simp add: shift)
          show "j' < sectors_touched ?S (unat (0::u32)) (unat (remain - ?c)) \<longrightarrow>
                \<not> commits m2 (unat (0::u32)) (unat (remain - ?c)) (blk + 1) j'"
            using stop k Suc n'' by (simp add: shift[unfolded n''])
        qed
        then obtain m' where
          run: "write_loop m2 junk sec bufsize (blk + 1) 0 (remain - ?c) ?src' =
                Some (Returns (if j' = ?k' then bufsize else - 1), m')"
          and post: "write_post m2 m' 0 ?n' (blk + 1) ?src' j' (j' < ?k')"
          unfolding n'' by auto
        have "write_post m m' ?o ?n blk src (Suc j') (j' < ?k')"
          using m2_def sec[symmetric] oS big dist post
          by (intro write_post_Suc[where ?m2.0 = m2 and S = ?S]) simp_all
        then show ?thesis using step run k Suc mn by auto
      qed
    qed
  qed
qed

section \<open>Mount, unmount and the host's stop command\<close>

lemma sdmmc_begin_failed: "sdmmc_begin m = (False, m') \<Longrightarrow> \<not> is_open m'"
  by (auto simp: sdmmc_begin_def split: if_splits)

lemma is_open_sdmmc_end [simp]: "is_open (sdmmc_end m) = False"
  by (simp add: sdmmc_end_def)

lemma mount_empty_slot:
  "mount empty_slot =
     (False, empty_slot\<lparr>SD_MMC := (SD_MMC empty_slot)\<lparr>trace := [SetPins 6 5 7, Begin]\<rparr>\<rparr>)"
  by (simp add: mount_def empty_slot_def sdmmc_begin_def setPins_def called_def
      PIN_SD_CLK_def PIN_SD_CMD_def PIN_SD_D0_def)

lemma mount_card_inserted:
  "mount card_inserted =
     (True, card_inserted
        \<lparr>s_msc := idle_msc\<lparr>vendor := ''ESP32'', product := ''SD-USB'', revision := ''1.0'',
                            read_cb := True, write_cb := True, start_stop_cb := True,
                            media_present := True, block_count := 1000, block_size := 512,
                            running := True\<rparr>,
         SD_MMC := card512\<lparr>trace := [SetPins 6 5 7, Begin]\<rparr>,
         usb_begun := 1, s_mounted := True\<rparr>)"
  by (simp add: mount_def card_inserted_def card512_def idle_msc_def sdmmc_begin_def setPins_def
      called_def cardType_def sectorSize_def numSectors_def msc_begin_def
      PIN_SD_CLK_def PIN_SD_CMD_def PIN_SD_D0_def)

text \<open>
  C7. Whenever \<open>mount()\<close> returns false (no card answers, the card type is none, the geometry
  has a zero, or the mass-storage class does not start), \<open>isMounted()\<close> is false afterwards
  and the medium is closed, so that it reports sector size zero.
\<close>

theorem mount_failure_leaves_closed:
  assumes "mount st = (False, st')"
  shows "\<not> isMounted st' \<and> \<not> is_open (SD_MMC st') \<and> sectorSize (SD_MMC st') = 0"
proof -
  have nm: "\<not> s_mounted st" using assms by (auto simp: mount_def)
  obtain opened sd where
    b: "sdmmc_begin (setPins (SD_MMC st) PIN_SD_CLK PIN_SD_CMD PIN_SD_D0) = (opened, sd)"
    by (cases "sdmmc_begin (setPins (SD_MMC st) PIN_SD_CLK PIN_SD_CMD PIN_SD_D0)")
  have "\<not> s_mounted st' \<and> \<not> is_open (SD_MMC st')"
  proof (cases opened)
    case False
    then have "\<not> is_open sd" using b sdmmc_begin_failed[of _ sd] by simp
    then show ?thesis using assms nm b False by (auto simp: mount_def)
  next
    case True
    then show ?thesis using assms nm b
      by (auto simp: mount_def Let_def msc_begin_def split: if_splits)
  qed
  then show ?thesis by (simp add: isMounted_def sectorSize_def)
qed

theorem mount_failure_leaves_closed_witness:
  "mount empty_slot =
     (False, empty_slot\<lparr>SD_MMC := (SD_MMC empty_slot)\<lparr>trace := [SetPins 6 5 7, Begin]\<rparr>\<rparr>)
   \<and> \<not> isMounted (empty_slot\<lparr>SD_MMC := (SD_MMC empty_slot)\<lparr>trace := [SetPins 6 5 7, Begin]\<rparr>\<rparr>)
   \<and> \<not> is_open (SD_MMC
          (empty_slot\<lparr>SD_MMC := (SD_MMC empty_slot)\<lparr>trace := [SetPins 6 5 7, Begin]\<rparr>\<rparr>))"
  using mount_failure_leaves_closed[OF mount_empty_slot] mount_empty_slot by simp

text \<open>
  C8. \<open>mount()\<close> called while mounted returns true and changes nothing: no call reaches the
  medium, the descriptor or the class. So when \<open>mount()\<close> returns true, the drive is mounted
  and calling it again returns true and leaves the state as it is; over both calls the medium
  is opened once (not at all if the first call found the drive already mounted).
\<close>

theorem mount_twice:
  "(isMounted st \<longrightarrow> mount st = (True, st)) \<and>
   (fst (mount st) \<longrightarrow>
      isMounted (snd (mount st)) \<and>
      mount (snd (mount st)) = (True, snd (mount st)) \<and>
      count_list (trace (SD_MMC (snd (mount st)))) Begin
        = (if isMounted st then 0 else 1) + count_list (trace (SD_MMC st)) Begin)"
proof -
  have 1: "isMounted st \<longrightarrow> mount st = (True, st)"
    by (simp add: isMounted_def mount_def)
  have 2: "isMounted (snd (mount st)) \<and>
      mount (snd (mount st)) = (True, snd (mount st)) \<and>
      count_list (trace (SD_MMC (snd (mount st)))) Begin
        = (if isMounted st then 0 else 1) + count_list (trace (SD_MMC st)) Begin"
    if ok: "fst (mount st)"
  proof -
    obtain st' where r: "mount st = (True, st')" using ok by (cases "mount st") auto
    have m: "s_mounted st'"
      using r by (auto simp: mount_def Let_def msc_begin_def split: if_splits prod.splits)
    have "count_list (trace (SD_MMC st')) Begin
            = (if s_mounted st then 0 else 1) + count_list (trace (SD_MMC st)) Begin"
      using r
      by (auto simp: mount_def Let_def msc_begin_def sdmmc_begin_def setPins_def called_def
          split: if_splits prod.splits)
    moreover have "mount st' = (True, st')" using m by (simp add: mount_def)
    ultimately show ?thesis using m r by (simp add: isMounted_def)
  qed
  show ?thesis using 1 2 by blast
qed

theorem mount_twice_witness:
  "\<not> isMounted card_inserted \<and>
   mount card_inserted = (True, snd (mount card_inserted)) \<and>
   isMounted (snd (mount card_inserted)) \<and>
   mount (snd (mount card_inserted)) = (True, snd (mount card_inserted)) \<and>
   count_list (trace (SD_MMC (snd (mount card_inserted)))) Begin = 1"
proof -
  have 1: "fst (mount card_inserted)" by (simp add: mount_card_inserted)
  have 2: "\<not> isMounted card_inserted" "trace (SD_MMC card_inserted) = []"
    by (simp_all add: isMounted_def card_inserted_def card512_def)
  have 3: "mount card_inserted = (True, snd (mount card_inserted))"
    by (simp add: mount_card_inserted)
  show ?thesis using mount_twice[of card_inserted] 1 2 3 by simp
qed

text \<open>
  C9. A host stop command with the eject flag does what \<open>unmount()\<close> does and reports
  success; afterwards \<open>isMounted()\<close> is false and a further \<open>unmount()\<close> changes nothing.
  A stop command without the eject flag reports success and changes nothing.
\<close>

theorem host_eject_is_unmount:
  "onStartStop st pc False True = (True, unmount st) \<and>
   \<not> isMounted (unmount st) \<and>
   unmount (unmount st) = unmount st \<and>
   onStartStop st pc False False = (True, st)"
  by (simp add: onStartStop_def unmount_def isMounted_def)

theorem host_eject_is_unmount_witness:
  "isMounted (snd (mount card_inserted)) \<and>
   onStartStop (snd (mount card_inserted)) 0 False True
     = (True, unmount (snd (mount card_inserted))) \<and>
   \<not> isMounted (unmount (snd (mount card_inserted))) \<and>
   \<not> is_open (SD_MMC (unmount (snd (mount card_inserted))))"
  using host_eject_is_unmount[of "snd (mount card_inserted)" 0]
  by (simp add: mount_card_inserted isMounted_def unmount_def)

section \<open>Reading: the bytes returned and the sectors fetched\<close>

lemma touched_covers: "0 < S \<Longrightarrow> off + len \<le> sectors_touched S off len * S"
proof -
  assume S: "0 < S"
  have "off + len + S - 1 < S + (off + len + S - 1) div S * S"
    using S by (rule dividend_less_div_times)
  then show ?thesis unfolding sectors_touched_def using S by simp
qed

lemma touched_0_iff: "0 < S \<Longrightarrow> sectors_touched S off len = 0 \<longleftrightarrow> off + len = 0"
  using touched_covers[of S off len] by (auto simp: sectors_touched_def)

lemma pieces_concat:
  fixes B :: "nat \<Rightarrow> 'a list"
  assumes "off < S" and "\<forall>i<k. length (B i) = S" and "k = sectors_touched S off len"
    and "0 < len \<or> off = 0"
  shows "concat (map (\<lambda>i. take (sect_len S off len i) (drop (sect_off off i) (B i))) [0..<k])
         = take len (drop off (concat (map B [0..<k])))"
  using assms
proof (induction k arbitrary: off len B)
  case 0
  then have "len = 0" using touched_0_iff[of S off len] by simp
  then show ?case by simp
next
  case (Suc k)
  have S: "0 < S" using Suc.prems(1) by simp
  have l0: "length (B 0) = S" using Suc.prems(2) by simp
  have lenpos: "0 < len"
    using Suc.prems(3,4) by (cases "len = 0") auto
  show ?case
  proof (cases "len \<le> S - off")
    case True
    then have "sectors_touched S off len = 1"
      using lenpos Suc.prems(1) by (intro touched_one) simp_all
    then have k0: "k = 0" using Suc.prems(3) by simp
    show ?thesis using True l0 by (simp add: k0)
  next
    case False
    then have big: "S - off < len" by simp
    let ?len' = "len - (S - off)"
    have k: "k = sectors_touched S 0 ?len'"
      using touched_Suc[OF Suc.prems(1) big] Suc.prems(3) by simp
    have IH: "concat (map (\<lambda>i. take (sect_len S 0 ?len' i) (drop (sect_off 0 i) (B (Suc i)))) [0..<k])
              = take ?len' (drop 0 (concat (map (\<lambda>i. B (Suc i)) [0..<k])))"
      using S Suc.prems(2) k by (intro Suc.IH) simp_all
    have lhs: "concat (map (\<lambda>i. take (sect_len S off len i) (drop (sect_off off i) (B i))) [0..<Suc k])
          = drop off (B 0) @ take ?len' (concat (map (\<lambda>i. B (Suc i)) [0..<k]))"
      unfolding map_upt_Suc_shift using big l0 IH
      by (simp add: sect_len_Suc[OF Suc.prems(1) big])
    have rhs: "take len (drop off (concat (map B [0..<Suc k])))
          = drop off (B 0) @ take ?len' (concat (map (\<lambda>i. B (Suc i)) [0..<k]))"
      unfolding map_upt_Suc_shift using big l0 Suc.prems(1) by simp
    show ?thesis unfolding lhs rhs ..
  qed
qed

lemma length_concat_const:
  "\<forall>x\<in>set xs. length (g x) = S \<Longrightarrow> length (concat (map g xs)) = length xs * S"
  by (induction xs) simp_all

lemma concat_window:
  fixes g :: "nat \<Rightarrow> 'a list"
  assumes len: "\<forall>j. length (g j) = S" and le: "a + k \<le> N"
  shows "concat (map (\<lambda>i. g (a + i)) [0..<k]) = take (k * S) (drop (a * S) (concat (map g [0..<N])))"
proof -
  have "[0..<(a + k) + (N - (a + k))] = [0..<a + k] @ [a + k..<(a + k) + (N - (a + k))]"
    by (rule upt_add_eq_append) simp
  moreover have "[0..<a + k] = [0..<a] @ [a..<a + k]"
    by (rule upt_add_eq_append) simp
  ultimately have split: "[0..<N] = [0..<a] @ [a..<a + k] @ [a + k..<N]"
    using le by simp
  have "length (concat (map g [0..<a])) = length [0..<a] * S"
    by (rule length_concat_const) (simp add: len)
  then have la: "length (concat (map g [0..<a])) = a * S" by simp
  have "length (concat (map g [a..<a + k])) = length [a..<a + k] * S"
    by (rule length_concat_const) (simp add: len)
  then have lk: "length (concat (map g [a..<a + k])) = k * S" by simp
  have "[a..<a + k] = map (\<lambda>i. i + a) [0..<k]"
    using map_add_upt[of a k] by (simp only: add.commute[of a k])
  then have w: "map (\<lambda>i. g (a + i)) [0..<k] = map g [a..<a + k]"
    by (simp only: map_map o_def add.commute[of a])
  show ?thesis
    unfolding w split map_append concat_append
    using la lk by simp
qed

lemma sectorSize_ok: "medium_ok m \<Longrightarrow> sectorSize m = sector_size m"
  by (simp add: medium_ok_def sectorSize_def)

lemma reads_in_range:
  assumes "\<forall>i<k. read_ok m (blk + of_nat i)"
  shows "k = 0 \<or> unat blk + k \<le> unat (num_sectors m)"
proof (cases k)
  case 0
  then show ?thesis by simp
next
  case (Suc k')
  have rng: "\<forall>i<k. blk + of_nat i < num_sectors m" using assms by (simp add: read_ok_def)
  have "unat (blk + of_nat k') = unat blk + k'" using Suc by (intro no_wrap[OF rng]) simp
  moreover have "blk + of_nat k' < num_sectors m" using rng Suc by simp
  ultimately have "unat blk + k' < unat (num_sectors m)" by (simp add: word_less_nat_alt)
  then show ?thesis using Suc by simp
qed

lemma span_medium_bytes:
  assumes ok: "medium_ok m" and le: "unat blk + k \<le> unat (num_sectors m)"
  shows "concat (map (\<lambda>i. blocks m (blk + of_nat i)) [0..<k])
         = take (k * unat (sector_size m))
             (drop (unat blk * unat (sector_size m)) (medium_bytes m))"
proof -
  have len: "\<forall>j. length (blocks m (of_nat j)) = unat (sector_size m)"
    using ok by (simp add: medium_ok_def)
  have "concat (map (\<lambda>i. blocks m (of_nat (unat blk + i))) [0..<k])
        = take (k * unat (sector_size m))
            (drop (unat blk * unat (sector_size m))
               (concat (map (\<lambda>j. blocks m (of_nat j)) [0..<unat (num_sectors m)])))"
    using len le by (rule concat_window)
  then show ?thesis by (simp add: medium_bytes_def)
qed

lemma read_pieces_bytes:
  assumes ok: "medium_ok m" and off: "off < unat (sector_size m)"
    and n: "0 < len"
    and k: "k = sectors_touched (unat (sector_size m)) off len"
    and le: "unat blk + k \<le> unat (num_sectors m)"
  shows "read_pieces m blk off len k
         = take len (drop (unat blk * unat (sector_size m) + off) (medium_bytes m))"
proof -
  let ?S = "unat (sector_size m)"
  have S: "0 < ?S" using off by simp
  have len: "\<forall>i<k. length (blocks m (blk + of_nat i)) = ?S"
    using ok by (simp add: medium_ok_def)
  have "read_pieces m blk off len k
        = take len (drop off (concat (map (\<lambda>i. blocks m (blk + of_nat i)) [0..<k])))"
    unfolding read_pieces_def using off len k n by (intro pieces_concat) simp_all
  also have "\<dots> = take len (drop off (take (k * ?S) (drop (unat blk * ?S) (medium_bytes m))))"
    by (simp only: span_medium_bytes[OF ok le])
  also have "\<dots> = take len (drop (unat blk * ?S + off) (medium_bytes m))"
  proof -
    have "off + len \<le> k * ?S" unfolding k using S by (rule touched_covers)
    then show ?thesis by (simp add: drop_take add.commute min_def)
  qed
  finally show ?thesis .
qed

lemma length_read_pieces:
  assumes ok: "medium_ok m" and off: "off < unat (sector_size m)" and n: "0 < len"
    and k: "k = sectors_touched (unat (sector_size m)) off len"
  shows "length (read_pieces m blk off len k) = len"
proof -
  let ?S = "unat (sector_size m)"
  have S: "0 < ?S" using off by simp
  have len: "\<forall>i<k. length (blocks m (blk + of_nat i)) = ?S"
    using ok by (simp add: medium_ok_def)
  have eq: "read_pieces m blk off len k
        = take len (drop off (concat (map (\<lambda>i. blocks m (blk + of_nat i)) [0..<k])))"
    unfolding read_pieces_def using off len k n by (intro pieces_concat) simp_all
  have "length (concat (map (\<lambda>i. blocks m (blk + of_nat i)) [0..<k])) = length [0..<k] * ?S"
    using ok by (intro length_concat_const) (simp add: medium_ok_def)
  moreover have "off + len \<le> k * ?S" unfolding k using S by (rule touched_covers)
  ultimately show ?thesis unfolding eq by simp
qed

lemma onRead_ok:
  assumes ok: "medium_ok m" and n: "bufsize \<noteq> 0" and off: "offset < sectorSize m"
    and rd: "\<forall>i < sectors_touched (unat (sectorSize m)) (unat offset) (unat bufsize).
               read_ok m (lba + of_nat i)"
  shows "onRead m junk lba offset bufsize =
           Some (Returns bufsize,
                 read_pieces m lba (unat offset) (unat bufsize)
                   (sectors_touched (unat (sectorSize m)) (unat offset) (unat bufsize)),
                 m\<lparr>trace := trace m @ map (\<lambda>i. ReadRAW (lba + of_nat i))
                     [0..<sectors_touched (unat (sectorSize m)) (unat offset) (unat bufsize)]\<rparr>)"
proof -
  let ?k = "sectors_touched (unat (sector_size m)) (unat offset) (unat bufsize)"
  have ss: "sectorSize m = sector_size m" using ok by (rule sectorSize_ok)
  have nz: "sector_size m \<noteq> 0" using ok by (simp add: medium_ok_def)
  have off': "offset < sector_size m" using off ss by simp
  have rd': "\<forall>i < ?k. read_ok m (lba + of_nat i)" using rd ss by simp
  have run: "read_loop m junk (sector_size m) bufsize lba offset bufsize [] =
     Some (Returns bufsize, [] @ read_pieces m lba (unat offset) (unat bufsize) ?k,
           m\<lparr>trace := trace m @ map (\<lambda>i. ReadRAW (lba + of_nat i)) [0..<?k]\<rparr>)"
    using nz ok _ off' _ rd' by (rule read_loop_ok) (simp_all add: n)
  show ?thesis using run nz n by (simp add: onRead_def ss Let_def)
qed

text \<open>
  C1. On a medium whose sectors are at most 512 bytes (they fit \<open>tmp\<close>), for a
  request with \<open>bufsize > 0\<close> and \<open>offset\<close> below the sector size, when the read of
  every touched sector succeeds, \<open>onRead\<close> returns \<open>bufsize\<close>; it fetches the
  \<open>ceil((offset + bufsize) / sectorSize)\<close> sectors from \<open>lba\<close> on, each by one
  \<open>readRAW\<close> call, in order; it copies from the first sector
  \<open>min(bufsize, sectorSize - offset)\<close> bytes beginning at \<open>offset\<close> and from each later
  sector the smaller of a sector and what remains, beginning at 0 (\<open>read_pieces\<close>); and
  the \<open>bufsize\<close> bytes it stores are the medium's bytes from position
  \<open>lba * sectorSize + offset\<close>.
\<close>

theorem onRead_assembles:
  assumes ok: "medium_ok m" and n: "bufsize \<noteq> 0" and off: "offset < sectorSize m"
    and rd: "\<forall>i < sectors_touched (unat (sectorSize m)) (unat offset) (unat bufsize).
               read_ok m (lba + of_nat i)"
  shows "onRead m junk lba offset bufsize =
           Some (Returns bufsize,
                 read_pieces m lba (unat offset) (unat bufsize)
                   (sectors_touched (unat (sectorSize m)) (unat offset) (unat bufsize)),
                 m\<lparr>trace := trace m @ map (\<lambda>i. ReadRAW (lba + of_nat i))
                     [0..<sectors_touched (unat (sectorSize m)) (unat offset) (unat bufsize)]\<rparr>)
         \<and> read_pieces m lba (unat offset) (unat bufsize)
              (sectors_touched (unat (sectorSize m)) (unat offset) (unat bufsize))
            = take (unat bufsize)
                (drop (unat lba * unat (sectorSize m) + unat offset) (medium_bytes m))
         \<and> length (read_pieces m lba (unat offset) (unat bufsize)
              (sectors_touched (unat (sectorSize m)) (unat offset) (unat bufsize))) = unat bufsize"
proof -
  let ?k = "sectors_touched (unat (sector_size m)) (unat offset) (unat bufsize)"
  have ss: "sectorSize m = sector_size m" using ok by (rule sectorSize_ok)
  have nz: "sector_size m \<noteq> 0" using ok by (simp add: medium_ok_def)
  have off': "offset < sector_size m" using off ss by simp
  have oS: "unat offset < unat (sector_size m)" using off' by (simp add: word_less_nat_alt)
  have npos: "0 < unat bufsize" using n by (simp add: unat_gt_0)
  have rd': "\<forall>i < ?k. read_ok m (lba + of_nat i)" using rd ss by simp
  have kpos: "?k \<noteq> 0" using touched_0_iff[of "unat (sector_size m)" "unat offset" "unat bufsize"] oS npos
    by simp
  then have rng: "unat lba + ?k \<le> unat (num_sectors m)" using reads_in_range[OF rd'] by simp
  have 1: "onRead m junk lba offset bufsize =
           Some (Returns bufsize, read_pieces m lba (unat offset) (unat bufsize) ?k,
                 m\<lparr>trace := trace m @ map (\<lambda>i. ReadRAW (lba + of_nat i)) [0..<?k]\<rparr>)"
    using onRead_ok[OF ok n off rd] unfolding ss .
  have 2: "read_pieces m lba (unat offset) (unat bufsize) ?k
           = take (unat bufsize)
               (drop (unat lba * unat (sector_size m) + unat offset) (medium_bytes m))"
    using ok oS npos _ rng by (rule read_pieces_bytes) simp
  have 3: "length (read_pieces m lba (unat offset) (unat bufsize) ?k) = unat bufsize"
    using ok oS npos by (rule length_read_pieces) simp
  show ?thesis unfolding ss using 1 2 3 by simp
qed

lemma medium_ok_card512: "medium_ok card512"
  by (simp add: medium_ok_def card512_def TMP_SIZE_def)

lemma word_of_small: "i < 1000 \<Longrightarrow> (of_nat i :: u32) < 1000"
proof -
  assume a: "i < 1000"
  then have "unat (of_nat i :: u32) = i" by (simp add: unat_of_nat)
  then show ?thesis using a by (simp add: word_less_nat_alt)
qed

lemma read_ok_card512: "i < 1000 \<Longrightarrow> read_ok card512 (of_nat i)"
  using word_of_small[of i] by (simp add: read_ok_def card512_def)

lemma write_ok_card512: "i < 1000 \<Longrightarrow> write_ok card512 (of_nat i)"
  using word_of_small[of i] by (simp add: write_ok_def card512_def)

theorem onRead_assembles_witness:
  "onRead card512 [] 0 100 1500 =
     Some (Returns 1500, take 1500 (drop 100 (medium_bytes card512)),
           card512\<lparr>trace := [ReadRAW 0, ReadRAW 1, ReadRAW 2, ReadRAW 3]\<rparr>)
   \<and> length (take 1500 (drop 100 (medium_bytes card512))) = 1500"
proof -
  have ss: "sectorSize card512 = 512" by (simp add: sectorSize_def card512_def)
  have k: "sectors_touched 512 100 1500 = 4" by (simp add: sectors_touched_def)
  have rd: "\<forall>i < sectors_touched (unat (sectorSize card512)) (unat (100 :: u32))
                 (unat (1500 :: u32)). read_ok card512 (0 + of_nat i)"
    by (simp add: ss k read_ok_card512)
  have tr: "trace card512 = []" by (simp add: card512_def)
  have upt: "[0..<4] = [0, 1, 2, Suc 2]" by (simp add: upt_rec)
  have h1: "(1500 :: u32) \<noteq> 0" by simp
  have h2: "(100 :: u32) < sectorSize card512" by (simp add: ss)
  note r = onRead_assembles[OF medium_ok_card512 h1 h2 rd, of "[]"]
  have a: "onRead card512 [] 0 100 1500 =
          Some (Returns 1500, read_pieces card512 0 100 1500 4,
                card512\<lparr>trace := [ReadRAW 0, ReadRAW 1, ReadRAW 2, ReadRAW 3]\<rparr>)"
    using r[THEN conjunct1] by (simp add: ss k tr upt)
  have b: "read_pieces card512 0 100 1500 4 = take 1500 (drop 100 (medium_bytes card512))"
    using r[THEN conjunct2, THEN conjunct1] by (simp add: ss k)
  have c: "length (read_pieces card512 0 100 1500 4) = 1500"
    using r[THEN conjunct2, THEN conjunct2] by (simp add: ss k)
  show ?thesis using a c unfolding b by (rule conjI)
qed

theorem onRead_1024_counterexample:
  "(1::u32) \<noteq> 0 \<and> (0::u32) < sectorSize card1024 \<and> read_ok card1024 0 \<and>
   onRead card1024 [] 0 0 1 = Some (Overrun, [], card1024\<lparr>trace := [ReadRAW 0]\<rparr>)"
proof -
  have "read_loop card1024 [] 1024 1 0 0 1 [] = Some (Overrun, [], card1024\<lparr>trace := [ReadRAW 0]\<rparr>)"
    by (subst read_loop.simps)
      (simp add: readRAW_tmp_def readRAW_def read_ok_def card1024_def TMP_SIZE_def called_def)
  then show ?thesis
    by (simp add: onRead_def sectorSize_def read_ok_def) (simp add: card1024_def)
qed

section \<open>Writing: a failed sector aborts the request\<close>

subsection \<open>The first sector that does not commit\<close>

lemma first_failure:
  "\<exists>j\<le>(k::nat). (\<forall>i<j. P i) \<and> (j < k \<longrightarrow> \<not> P j)"
proof (induction k)
  case 0
  show ?case by simp
next
  case (Suc k)
  then obtain j where j: "j \<le> k" "\<forall>i<j. P i" "j < k \<longrightarrow> \<not> P j" by blast
  show ?case
  proof (cases "j < k \<or> \<not> P k")
    case True
    then show ?thesis using j by (intro exI[of _ j]) auto
  next
    case False
    then have "j = k" "P k" using j by auto
    then show ?thesis using j by (intro exI[of _ "Suc k"]) (auto simp: less_Suc_eq)
  qed
qed

lemma onWrite_run:
  assumes ok: "medium_ok m" and n: "bufsize \<noteq> 0" and off: "offset < sectorSize m"
    and src: "unat bufsize \<le> length buffer"
    and jk: "j \<le> sectors_touched (unat (sectorSize m)) (unat offset) (unat bufsize)"
    and com: "\<forall>i<j. commits m (unat offset) (unat bufsize) lba i"
    and stop: "j < sectors_touched (unat (sectorSize m)) (unat offset) (unat bufsize) \<longrightarrow>
               \<not> commits m (unat offset) (unat bufsize) lba j"
  shows "\<exists>m'. onWrite m junk lba offset buffer bufsize =
           Some (Returns (if j = sectors_touched (unat (sectorSize m)) (unat offset) (unat bufsize)
                          then bufsize else - 1), m') \<and>
         write_post m m' (unat offset) (unat bufsize) lba buffer j
           (j < sectors_touched (unat (sectorSize m)) (unat offset) (unat bufsize))"
proof -
  have ss: "sectorSize m = sector_size m" using ok by (rule sectorSize_ok)
  have nz: "sector_size m \<noteq> 0" using ok by (simp add: medium_ok_def)
  have "onWrite m junk lba offset buffer bufsize =
        write_loop m junk (sector_size m) bufsize lba offset bufsize buffer"
    using nz n by (simp add: onWrite_def ss Let_def)
  moreover have "\<exists>m'. write_loop m junk (sector_size m) bufsize lba offset bufsize buffer =
           Some (Returns (if j = sectors_touched (unat (sector_size m)) (unat offset) (unat bufsize)
                          then bufsize else - 1), m') \<and>
         write_post m m' (unat offset) (unat bufsize) lba buffer j
           (j < sectors_touched (unat (sector_size m)) (unat offset) (unat bufsize))"
    using nz ok _ _ _ src
  proof (rule write_loop_run)
    show "sector_size m = sector_size m" ..
    show "offset < sector_size m" using off ss by simp
    show "bufsize \<noteq> 0 \<or> offset = 0" using n by simp
    show "j \<le> sectors_touched (unat (sector_size m)) (unat offset) (unat bufsize)"
      using jk ss by simp
    show "\<forall>i<j. commits m (unat offset) (unat bufsize) lba i" by (rule com)
    show "j < sectors_touched (unat (sector_size m)) (unat offset) (unat bufsize) \<longrightarrow>
          \<not> commits m (unat offset) (unat bufsize) lba j" using stop ss by simp
  qed
  ultimately show ?thesis by (simp add: ss)
qed

text \<open>
  C5. On a medium whose sectors are at most 512 bytes, when the sectors before the
  \<open>j\<close>-th touched one commit and the \<open>j\<close>-th does not (its read-modify-write read fails,
  or its write fails), \<open>onWrite\<close> returns -1; the \<open>j\<close> sectors before it hold their new
  contents and every other sector is unchanged; and the last call on the medium is the failed
  one: no sector operation follows it.
\<close>

theorem onWrite_abort_keeps_prefix:
  assumes ok: "medium_ok m" and n: "bufsize \<noteq> 0" and off: "offset < sectorSize m"
    and src: "length buffer = unat bufsize"
    and jk: "j < sectors_touched (unat (sectorSize m)) (unat offset) (unat bufsize)"
    and com: "\<forall>i<j. commits m (unat offset) (unat bufsize) lba i"
    and stop: "\<not> commits m (unat offset) (unat bufsize) lba j"
  shows "\<exists>m'. onWrite m junk lba offset buffer bufsize = Some (Returns (- 1), m') \<and>
           (\<forall>i<j. blocks m' (lba + of_nat i) =
              sector_image (unat (sectorSize m)) (unat offset) (unat bufsize) buffer
                (blocks m (lba + of_nat i)) i) \<and>
           (\<forall>b. (\<forall>i<j. b \<noteq> lba + of_nat i) \<longrightarrow> blocks m' b = blocks m b) \<and>
           trace m' = trace m
             @ concat (map (sector_calls m (unat offset) (unat bufsize) lba buffer) [0..<j])
             @ abort_calls m (unat offset) (unat bufsize) lba buffer j"
proof -
  have ss: "sectorSize m = sector_size m" using ok by (rule sectorSize_ok)
  from onWrite_run[OF ok n off _ _ com, of buffer junk] src jk stop
  obtain m' where
    "onWrite m junk lba offset buffer bufsize = Some (Returns (- 1), m')"
    "write_post m m' (unat offset) (unat bufsize) lba buffer j True"
    by auto
  then show ?thesis unfolding write_post_def ss by auto
qed

lemma medium_ok_flaky: "medium_ok flaky_card"
  by (simp add: medium_ok_def flaky_card_def tiny_card_def TMP_SIZE_def)

theorem onWrite_abort_keeps_prefix_witness:
  "\<exists>m'. onWrite flaky_card [] 1 2 [10, 11, 12, 13, 14, 15] 6 = Some (Returns (- 1), m') \<and>
        blocks m' 1 = [4, 5, 10, 11] \<and>
        blocks m' 2 = [8, 9, 10, 11] \<and>
        trace m' = [ReadRAW 1, WriteRAW 1 [4, 5, 10, 11], WriteRAW 2 [12, 13, 14, 15]]"
proof -
  have ss: "sectorSize flaky_card = 4" by (simp add: sectorSize_def flaky_card_def tiny_card_def)
  have k: "sectors_touched 4 2 6 = 2" by (simp add: sectors_touched_def)
  have b1: "blocks flaky_card 1 = [4, 5, 6, 7]" and b2: "blocks flaky_card 2 = [8, 9, 10, 11]"
    by (simp_all add: flaky_card_def tiny_card_def upt_rec)
  have c0: "commits flaky_card 2 6 1 0"
    by (simp add: commits_def read_ok_def write_ok_def flaky_card_def tiny_card_def)
  have c1: "\<not> commits flaky_card 2 6 1 (Suc 0)"
    by (simp add: commits_def read_ok_def write_ok_def flaky_card_def tiny_card_def)
  have p0: "partial_sector 4 2 6 0" and p1: "\<not> partial_sector 4 2 6 (Suc 0)"
    by (simp_all add: partial_sector_def sect_pos_def)
  have i0: "sector_image 4 2 6 [10, 11, 12, 13, 14, 15] [4, 5, 6, 7] 0 = [4, 5, 10, 11]"
    by (simp add: sector_image_def spliced_def)
  have i1: "sector_image 4 2 6 [10, 11, 12, 13, 14, 15] [8, 9, 10, 11] (Suc 0) = [12, 13, 14, 15]"
    by (simp add: sector_image_def spliced_def sect_len_def sect_pos_def)
  have tr: "trace flaky_card = []" by (simp add: flaky_card_def tiny_card_def)
  from onWrite_abort_keeps_prefix[OF medium_ok_flaky, of 6 2 "[10, 11, 12, 13, 14, 15]" "Suc 0" 1 "[]"]
  obtain m' where
    r: "onWrite flaky_card [] 1 2 [10, 11, 12, 13, 14, 15] 6 = Some (Returns (- 1), m')"
    and bl: "\<forall>i<Suc 0. blocks m' (1 + of_nat i) =
              sector_image 4 2 6 [10, 11, 12, 13, 14, 15] (blocks flaky_card (1 + of_nat i)) i"
    and fr: "\<forall>b. (\<forall>i<Suc 0. b \<noteq> 1 + of_nat i) \<longrightarrow> blocks m' b = blocks flaky_card b"
    and t: "trace m' = trace flaky_card
             @ concat (map (sector_calls flaky_card 2 6 1 [10, 11, 12, 13, 14, 15]) [0..<Suc 0])
             @ abort_calls flaky_card 2 6 1 [10, 11, 12, 13, 14, 15] (Suc 0)"
    using c0 c1 by (auto simp: ss k)
  have "blocks m' 1 = [4, 5, 10, 11]" using bl b1 i0 by simp
  moreover have "blocks m' 2 = [8, 9, 10, 11]" using fr[rule_format, of 2] b2 by simp
  moreover have "trace m' = [ReadRAW 1, WriteRAW 1 [4, 5, 10, 11], WriteRAW 2 [12, 13, 14, 15]]"
    unfolding t tr
    by (simp add: sector_calls_def abort_calls_def ss[unfolded sectorSize_def, simplified]
        p0 p1 b1 b2 i0 i1 flaky_card_def[THEN arg_cong, of sector_size] tiny_card_def)
  ultimately show ?thesis using r by blast
qed

theorem onWrite_1024_abort_counterexample:
  "write_ok flaky1024 0 \<and> write_bad flaky1024 1 \<and>
   onWrite flaky1024 [] 0 0 (replicate 2048 7) 2048 = Some (Overrun, flaky1024)"
proof -
  have "write_loop flaky1024 [] 1024 2048 0 0 2048 (replicate 2048 7) = Some (Overrun, flaky1024)"
    by (subst write_loop.simps) (simp add: TMP_SIZE_def Let_def)
  then show ?thesis
    by (simp add: onWrite_def sectorSize_def write_ok_def) (simp add: flaky1024_def card1024_def)
qed

section \<open>Writing: read-modify-write, aligned requests and the round trip\<close>

lemma touched_aligned: "0 < S \<Longrightarrow> sectors_touched S 0 (q * S) = q"
proof -
  assume S: "0 < S"
  then have e: "0 + q * S + S - 1 = q * S + (S - 1)" by simp
  have "(q * S + (S - 1)) div S = q + (S - 1) div S"
    using S by (intro div_mult_self3) simp
  moreover have "(S - 1) div S = 0" using S by simp
  ultimately show ?thesis unfolding sectors_touched_def e by (simp only: add_0_right)
qed

lemma aligned_rest: "i < q \<Longrightarrow> (S::nat) \<le> q * S - i * S"
proof -
  assume "i < q"
  then have "1 \<le> q - i" by simp
  then have "1 * S \<le> (q - i) * S" by (rule mult_le_mono1)
  then show ?thesis by (simp add: diff_mult_distrib)
qed

lemma not_partial_aligned: "i < q \<Longrightarrow> \<not> partial_sector S 0 (q * S) i"
  using aligned_rest[of i q S] by (simp add: partial_sector_def sect_pos_def)

lemma sector_image_aligned:
  assumes "i < q" and "length old = S" and "q * S \<le> length src"
  shows "sector_image S 0 (q * S) src old i = take S (drop (i * S) src)"
proof -
  have r: "S \<le> q * S - i * S" using assms(1) by (rule aligned_rest)
  moreover have "i * S \<le> q * S" using assms(1) by simp
  ultimately have "i * S + S \<le> length src" using assms(3) by linarith
  then have "length (take S (drop (i * S) src)) = S" by simp
  then show ?thesis using r assms(2)
    by (simp add: sector_image_def spliced_def sect_len_def sect_pos_def)
qed

lemma length_sector_image:
  assumes "length old = S"
  shows "length (sector_image S off len src old i) = S"
proof -
  define new where "new = take (sect_len S off len i) (drop (sect_pos S off i) src)"
  have "length new \<le> S - sect_off off i" by (simp add: new_def sect_len_def)
  then have "length (spliced old (sect_off off i) new) = S"
    using assms by (auto simp: spliced_def min_def)
  then show ?thesis by (simp add: sector_image_def new_def)
qed

lemma onWrite_ok:
  assumes ok: "medium_ok m" and n: "bufsize \<noteq> 0" and off: "offset < sectorSize m"
    and src: "unat bufsize \<le> length buffer"
    and com: "\<forall>i < sectors_touched (unat (sectorSize m)) (unat offset) (unat bufsize).
                commits m (unat offset) (unat bufsize) lba i"
  shows "\<exists>m'. onWrite m junk lba offset buffer bufsize = Some (Returns bufsize, m') \<and>
           write_post m m' (unat offset) (unat bufsize) lba buffer
             (sectors_touched (unat (sectorSize m)) (unat offset) (unat bufsize)) False"
  using onWrite_run[OF ok n off src le_refl com] by simp

text \<open>
  C3. On a medium whose sectors are at most 512 bytes, for a request with
  \<open>offset = 0\<close> and \<open>bufsize = q * sectorSize\<close>, \<open>q > 0\<close>: when the reads of the \<open>q\<close>
  sectors succeed, \<open>onRead\<close> makes exactly \<open>q\<close> calls on the medium, one \<open>readRAW\<close> per
  sector; when the writes of the \<open>q\<close> sectors succeed, \<open>onWrite\<close> makes exactly \<open>q\<close>
  calls, one \<open>writeRAW\<close> per sector with that sector's slice of the buffer, and no
  \<open>readRAW\<close> at all.
\<close>

theorem aligned_transfer_calls:
  assumes ok: "medium_ok m" and q: "0 < q" and len: "unat bufsize = q * unat (sectorSize m)"
    and src: "length buffer = unat bufsize"
  shows "((\<forall>i<q. read_ok m (lba + of_nat i)) \<longrightarrow>
            (\<exists>out. onRead m junk lba 0 bufsize =
               Some (Returns bufsize, out,
                     m\<lparr>trace := trace m @ map (\<lambda>i. ReadRAW (lba + of_nat i)) [0..<q]\<rparr>)))
       \<and> ((\<forall>i<q. write_ok m (lba + of_nat i)) \<longrightarrow>
            (\<exists>m'. onWrite m junk lba 0 buffer bufsize = Some (Returns bufsize, m') \<and>
               trace m' = trace m @ map (\<lambda>i. WriteRAW (lba + of_nat i)
                              (take (unat (sectorSize m)) (drop (i * unat (sectorSize m)) buffer)))
                            [0..<q]))"
proof -
  let ?S = "unat (sectorSize m)"
  have ss: "sectorSize m = sector_size m" using ok by (rule sectorSize_ok)
  have S: "0 < ?S" using ok ss by (simp add: medium_ok_def unat_gt_0)
  have off: "(0::u32) < sectorSize m" using S by (simp add: word_less_nat_alt)
  have n: "bufsize \<noteq> 0" using len q S by (auto simp: unat_eq_0[symmetric] simp del: unat_eq_0)
  have k: "sectors_touched ?S (unat (0::u32)) (unat bufsize) = q"
    using touched_aligned[OF S, of q] len by simp
  have blen: "\<And>b. length (blocks m b) = ?S" using ok ss by (simp add: medium_ok_def)
  have rd: "\<exists>out. onRead m junk lba 0 bufsize =
               Some (Returns bufsize, out,
                     m\<lparr>trace := trace m @ map (\<lambda>i. ReadRAW (lba + of_nat i)) [0..<q]\<rparr>)"
    if r: "\<forall>i<q. read_ok m (lba + of_nat i)"
    using onRead_ok[OF ok n off, of lba junk] r unfolding k by blast
  have wr: "\<exists>m'. onWrite m junk lba 0 buffer bufsize = Some (Returns bufsize, m') \<and>
               trace m' = trace m @ map (\<lambda>i. WriteRAW (lba + of_nat i)
                              (take ?S (drop (i * ?S) buffer))) [0..<q]"
    if w: "\<forall>i<q. write_ok m (lba + of_nat i)"
  proof -
    have com: "\<forall>i < sectors_touched ?S (unat (0::u32)) (unat bufsize).
                 commits m (unat (0::u32)) (unat bufsize) lba i"
      unfolding k using w by (simp add: commits_def len ss[symmetric] not_partial_aligned)
    from onWrite_ok[OF ok n off _ com, of buffer junk] src
    obtain m' where
      r: "onWrite m junk lba 0 buffer bufsize = Some (Returns bufsize, m')"
      and p: "write_post m m' 0 (q * ?S) lba buffer q False"
      unfolding k by (auto simp: len)
    have calls: "sector_calls m 0 (q * ?S) lba buffer i
                 = [WriteRAW (lba + of_nat i) (take ?S (drop (i * ?S) buffer))]" if "i < q" for i
      unfolding sector_calls_def ss[symmetric]
      using that blen src len
      by (simp add: not_partial_aligned sector_image_aligned)
    have eqmap: "map (sector_calls m 0 (q * ?S) lba buffer) [0..<q]
          = map (\<lambda>i. [WriteRAW (lba + of_nat i) (take ?S (drop (i * ?S) buffer))]) [0..<q]"
      by (rule map_cong) (simp_all add: calls)
    have t: "trace m' = trace m @ concat (map (sector_calls m 0 (q * ?S) lba buffer) [0..<q])"
      using p by (simp add: write_post_def)
    have "trace m' = trace m @ map (\<lambda>i. WriteRAW (lba + of_nat i)
                              (take ?S (drop (i * ?S) buffer))) [0..<q]"
      unfolding t eqmap by (simp add: concat_map_singleton)
    then show ?thesis using r by blast
  qed
  show ?thesis using rd wr by blast
qed

theorem aligned_transfer_calls_witness:
  "(\<exists>out. onRead tiny_card [] 1 0 8 =
       Some (Returns 8, out, tiny_card\<lparr>trace := [ReadRAW 1, ReadRAW 2]\<rparr>))
   \<and> (\<exists>m'. onWrite tiny_card [] 1 0 [20, 21, 22, 23, 24, 25, 26, 27] 8 = Some (Returns 8, m') \<and>
          trace m' = [WriteRAW 1 [20, 21, 22, 23], WriteRAW 2 [24, 25, 26, 27]])"
proof -
  have ok: "medium_ok tiny_card" by (simp add: medium_ok_def tiny_card_def TMP_SIZE_def)
  have ss: "sectorSize tiny_card = 4" by (simp add: sectorSize_def tiny_card_def)
  have tr: "trace tiny_card = []" by (simp add: tiny_card_def)
  have r: "\<forall>i<2. read_ok tiny_card (1 + of_nat i)"
    by (auto simp: read_ok_def tiny_card_def dest!: less_2_cases)
  have w: "\<forall>i<2. write_ok tiny_card (1 + of_nat i)"
    by (auto simp: write_ok_def tiny_card_def dest!: less_2_cases)
  have upt: "[0..<2] = [0, Suc 0]" by (simp add: upt_rec)
  show ?thesis
    using aligned_transfer_calls[OF ok, of 2 8 "[20, 21, 22, 23, 24, 25, 26, 27]" 1 "[]"] r w
    by (simp add: ss tr upt)
qed

theorem aligned_1024_counterexample:
  "unat (1024 :: u32) = 1 * unat (sectorSize card1024) \<and> write_ok card1024 0 \<and>
   onWrite card1024 [] 0 0 (replicate 1024 7) 1024 = Some (Overrun, card1024)"
proof -
  have "write_loop card1024 [] 1024 1024 0 0 1024 (replicate 1024 7) = Some (Overrun, card1024)"
    by (subst write_loop.simps) (simp add: TMP_SIZE_def Let_def)
  then show ?thesis
    by (simp add: onWrite_def sectorSize_def write_ok_def) (simp add: card1024_def)
qed

lemma sect_pos_step: "off < S \<Longrightarrow> sect_pos S off j + (S - sect_off off j) = sect_pos S off (Suc j)"
  by (cases j) (simp_all add: sect_pos_def sect_off_def)

lemma slices_concat:
  assumes "off < S"
  shows "concat (map (\<lambda>i. take (sect_len S off len i) (drop (sect_pos S off i) src)) [0..<j])
         = take (min len (sect_pos S off j)) src"
proof (induction j)
  case 0
  show ?case by simp
next
  case (Suc j)
  let ?p = "sect_pos S off j"
  have step: "?p + (S - sect_off off j) = sect_pos S off (Suc j)"
    using assms by (rule sect_pos_step)
  have unfold: "concat (map (\<lambda>i. take (sect_len S off len i) (drop (sect_pos S off i) src))
                  [0..<Suc j])
                = take (min len ?p) src @ take (sect_len S off len j) (drop ?p src)"
    using Suc by simp
  show ?case
  proof (cases "?p \<le> len")
    case True
    then have m: "min len ?p = ?p" by simp
    have "take ?p src @ take (sect_len S off len j) (drop ?p src)
          = take (?p + sect_len S off len j) src"
      by (simp add: take_add)
    moreover have "?p + sect_len S off len j = min len (sect_pos S off (Suc j))"
      using True step unfolding sect_len_def by linarith
    ultimately show ?thesis unfolding unfold m by (simp only:)
  next
    case False
    then have z: "sect_len S off len j = 0" by (simp add: sect_len_def)
    have "len \<le> sect_pos S off (Suc j)" using False step by simp
    then have "min len (sect_pos S off (Suc j)) = min len ?p" using False by simp
    then show ?thesis unfolding unfold z by simp
  qed
qed

lemma piece_of_image:
  assumes "length old = S" and "sect_pos S off i + sect_len S off len i \<le> length src"
  shows "take (sect_len S off len i) (drop (sect_off off i) (sector_image S off len src old i))
         = take (sect_len S off len i) (drop (sect_pos S off i) src)"
proof -
  define new where "new = take (sect_len S off len i) (drop (sect_pos S off i) src)"
  have ln: "length new = sect_len S off len i" using assms(2) by (simp add: new_def)
  show ?thesis
  proof (cases "sect_off off i \<le> S")
    case True
    define pre where "pre = take (sect_off off i) old"
    define rest where "rest = drop (sect_off off i + sect_len S off len i) old"
    have lp: "length pre = sect_off off i" using True assms(1) by (simp add: pre_def)
    have si: "sector_image S off len src old i = pre @ new @ rest"
      unfolding sector_image_def spliced_def new_def[symmetric] ln pre_def rest_def ..
    have "drop (length pre) (pre @ new @ rest) = new @ rest" by simp
    moreover have "take (length new) (new @ rest) = new" by simp
    ultimately have "take (length new) (drop (length pre) (pre @ new @ rest)) = new" by simp
    then show ?thesis unfolding si lp ln new_def[symmetric] .
  next
    case False
    then have "sect_len S off len i = 0" by (simp add: sect_len_def)
    then show ?thesis by simp
  qed
qed

lemma sect_pos_len_le: "len \<le> n \<Longrightarrow> sect_pos S off i + sect_len S off len i \<le> n \<or> len < sect_pos S off i"
  unfolding sect_len_def by linarith

text \<open>
  C4. On a medium whose sectors are at most 512 bytes, for a byte range with
  \<open>bufsize > 0\<close> and \<open>offset\<close> below the sector size whose sectors all read and write
  successfully (so the range lies within the sector count), and a buffer of \<open>bufsize\<close> bytes:
  \<open>onWrite\<close> returns \<open>bufsize\<close>, and \<open>onRead\<close> of the same range on the resulting medium
  returns \<open>bufsize\<close> and yields exactly the buffer that was written.
\<close>

theorem write_then_read:
  assumes ok: "medium_ok m" and n: "bufsize \<noteq> 0" and off: "offset < sectorSize m"
    and src: "length buffer = unat bufsize"
    and ops: "\<forall>i < sectors_touched (unat (sectorSize m)) (unat offset) (unat bufsize).
                read_ok m (lba + of_nat i) \<and> write_ok m (lba + of_nat i)"
  shows "\<exists>m'. onWrite m junk lba offset buffer bufsize = Some (Returns bufsize, m') \<and>
           (\<exists>m''. onRead m' junk' lba offset bufsize = Some (Returns bufsize, buffer, m''))"
proof -
  let ?S = "unat (sectorSize m)" and ?o = "unat offset" and ?n = "unat bufsize"
  let ?k = "sectors_touched ?S ?o ?n"
  have ss: "sectorSize m = sector_size m" using ok by (rule sectorSize_ok)
  have oS: "?o < ?S" using off by (simp add: word_less_nat_alt)
  have blen: "\<And>b. length (blocks m b) = ?S" using ok ss by (simp add: medium_ok_def)
  have com: "\<forall>i < ?k. commits m ?o ?n lba i" using ops by (simp add: commits_def)
  from onWrite_ok[OF ok n off _ com, of buffer junk] src
  obtain m' where
    w: "onWrite m junk lba offset buffer bufsize = Some (Returns bufsize, m')"
    and p: "write_post m m' ?o ?n lba buffer ?k False"
    by auto
  have same: "m' = m\<lparr>blocks := blocks m', trace := trace m'\<rparr>"
    and img: "\<And>i. i < ?k \<Longrightarrow> blocks m' (lba + of_nat i)
                 = sector_image ?S ?o ?n buffer (blocks m (lba + of_nat i)) i"
    and frame: "\<And>b. (\<forall>i < ?k. b \<noteq> lba + of_nat i) \<Longrightarrow> blocks m' b = blocks m b"
    using p unfolding write_post_def ss by blast+
  have fields: "is_open m' = is_open m" "sector_size m' = sector_size m"
    "num_sectors m' = num_sectors m" "read_bad m' = read_bad m"
    by (subst same, simp)+
  have blen': "length (blocks m' b) = ?S" for b
  proof (cases "\<exists>i < ?k. b = lba + of_nat i")
    case True
    then obtain i where "i < ?k" "b = lba + of_nat i" by blast
    then show ?thesis using img[of i] length_sector_image[OF blen] by simp
  next
    case False
    then show ?thesis using frame[of b] blen by auto
  qed
  have ok': "medium_ok m'"
    using ok blen' unfolding medium_ok_def fields ss[symmetric] by simp
  have ss': "sectorSize m' = sectorSize m" by (simp add: sectorSize_def fields)
  have rd': "\<forall>i < sectors_touched (unat (sectorSize m')) ?o ?n. read_ok m' (lba + of_nat i)"
    using ops unfolding ss' by (simp add: read_ok_def fields)
  have off': "offset < sectorSize m'" using off ss' by simp
  have r: "onRead m' junk' lba offset bufsize =
             Some (Returns bufsize, read_pieces m' lba ?o ?n ?k,
                   m'\<lparr>trace := trace m' @ map (\<lambda>i. ReadRAW (lba + of_nat i)) [0..<?k]\<rparr>)"
    using onRead_ok[OF ok' n off' rd', of junk'] unfolding ss' .
  have piece: "take (sect_len ?S ?o ?n i) (drop (sect_off ?o i) (blocks m' (lba + of_nat i)))
               = take (sect_len ?S ?o ?n i) (drop (sect_pos ?S ?o i) buffer)" if "i < ?k" for i
  proof (cases "?n < sect_pos ?S ?o i")
    case True
    then have "sect_len ?S ?o ?n i = 0" by (simp add: sect_len_def)
    then show ?thesis by simp
  next
    case False
    then have "sect_pos ?S ?o i + sect_len ?S ?o ?n i \<le> length buffer"
      using sect_pos_len_le[of ?n ?n ?S ?o i] src by simp
    then show ?thesis unfolding img[OF that] using blen by (intro piece_of_image) simp_all
  qed
  have "read_pieces m' lba ?o ?n ?k
        = concat (map (\<lambda>i. take (sect_len ?S ?o ?n i) (drop (sect_pos ?S ?o i) buffer)) [0..<?k])"
    unfolding read_pieces_def fields ss[symmetric]
    by (rule arg_cong[where f = concat], rule map_cong) (simp_all add: piece)
  also have "\<dots> = take (min ?n (sect_pos ?S ?o ?k)) buffer" using oS by (rule slices_concat)
  also have "\<dots> = buffer"
  proof -
    have "?o + ?n \<le> ?k * ?S" using oS by (intro touched_covers) simp
    then have "?n \<le> sect_pos ?S ?o ?k" by (simp add: sect_pos_def)
    then show ?thesis using src by simp
  qed
  finally show ?thesis using w r by blast
qed

theorem write_then_read_witness:
  "\<exists>m'. onWrite tiny_card [] 1 2 [20, 21, 22, 23, 24, 25] 6 = Some (Returns 6, m') \<and>
         (\<exists>m''. onRead m' [] 1 2 6 = Some (Returns 6, [20, 21, 22, 23, 24, 25], m''))"
proof -
  have ok: "medium_ok tiny_card" by (simp add: medium_ok_def tiny_card_def TMP_SIZE_def)
  have ss: "sectorSize tiny_card = 4" by (simp add: sectorSize_def tiny_card_def)
  have k: "sectors_touched 4 2 6 = 2" by (simp add: sectors_touched_def)
  have ops: "\<forall>i < sectors_touched (unat (sectorSize tiny_card)) (unat (2 :: u32)) (unat (6 :: u32)).
               read_ok tiny_card (1 + of_nat i) \<and> write_ok tiny_card (1 + of_nat i)"
    unfolding ss by (auto simp: k read_ok_def write_ok_def tiny_card_def dest!: less_2_cases)
  have h1: "(6 :: u32) \<noteq> 0" by simp
  have h2: "(2 :: u32) < sectorSize tiny_card" by (simp add: ss)
  have h3: "length [20, 21, 22, 23, 24, 25 :: byte] = unat (6 :: u32)" by simp
  show ?thesis using write_then_read[OF ok h1 h2 h3 ops, of "[]" "[]"] .
qed

theorem write_then_read_1024_counterexample:
  "read_ok card1024 0 \<and> write_ok card1024 0 \<and>
   onWrite card1024 [] 0 0 [7] 1 = Some (Overrun, card1024\<lparr>trace := [ReadRAW 0]\<rparr>)"
proof -
  have "write_loop card1024 [] 1024 1 0 0 1 [7] = Some (Overrun, card1024\<lparr>trace := [ReadRAW 0]\<rparr>)"
    by (subst write_loop.simps)
      (simp add: TMP_SIZE_def Let_def readRAW_tmp_def readRAW_def read_ok_def card1024_def called_def)
  then show ?thesis
    by (simp add: onWrite_def sectorSize_def write_ok_def read_ok_def) (simp add: card1024_def)
qed

lemma filter_concat_single:
  assumes "i < j" and "\<And>i'. i' < j \<Longrightarrow> i' \<noteq> i \<Longrightarrow> filter P (f i') = []"
  shows "filter P (concat (map f [0..<j])) = filter P (f i)"
  using assms
proof (induction j)
  case 0
  then show ?case by simp
next
  case (Suc j)
  show ?case
  proof (cases "i = j")
    case True
    have "filter P (concat (map f [0..<j])) = []"
      using Suc.prems(2) True by (simp add: filter_concat concat_eq_Nil_conv)
    then show ?thesis using True by simp
  next
    case False
    then have "i < j" using Suc.prems(1) by simp
    then have "filter P (concat (map f [0..<j])) = filter P (f i)"
      using Suc.prems(2) by (intro Suc.IH) simp_all
    moreover have "filter P (f j) = []" using Suc.prems(2)[of j] False by simp
    ultimately show ?thesis by simp
  qed
qed

lemma filter_sector_calls:
  "filter (on_sector b) (sector_calls m off len blk src i)
   = (if blk + of_nat i = b then sector_calls m off len blk src i else [])"
  by (simp add: sector_calls_def)

lemma filter_abort_calls:
  "blk + of_nat i \<noteq> b \<Longrightarrow> filter (on_sector b) (abort_calls m off len blk src i) = []"
  by (simp add: abort_calls_def sector_calls_def)

lemma spliced_nth_outside:
  assumes "at + length new \<le> length old" and "p < at \<or> at + length new \<le> p"
  shows "spliced old at new ! p = old ! p"
proof (cases "p < at")
  case True
  then show ?thesis using assms(1) by (simp add: spliced_def nth_append)
next
  case False
  then have ge: "at + length new \<le> p" using assms(2) by simp
  define front where "front = take at old @ new"
  have l1: "length front = at + length new" using assms(1) by (simp add: front_def)
  have "spliced old at new = front @ drop (at + length new) old"
    by (simp add: spliced_def front_def)
  then have "spliced old at new ! p = drop (at + length new) old ! (p - (at + length new))"
    using ge l1 by (simp add: nth_append)
  also have "\<dots> = old ! p" using ge assms(1) by simp
  finally show ?thesis .
qed

text \<open>
  C2. On a medium whose sectors are at most 512 bytes, let the \<open>i\<close>-th touched
  sector of a write request be partial (it is the first and \<open>offset \<noteq> 0\<close>, or fewer than a
  sector's bytes remain for it), and let the sectors up to and including it commit. Then among
  the calls \<open>onWrite\<close> makes, those on that sector are exactly one \<open>readRAW\<close> followed by
  one \<open>writeRAW\<close> of the full sector; the sector written is the old sector with the new
  bytes spliced in at the sector's offset, and every byte outside the spliced range is
  unchanged.
\<close>

theorem rmw_on_partial_sector:
  assumes ok: "medium_ok m" and n: "bufsize \<noteq> 0" and off: "offset < sectorSize m"
    and src: "length buffer = unat bufsize"
    and i: "i < sectors_touched (unat (sectorSize m)) (unat offset) (unat bufsize)"
    and part: "partial_sector (unat (sectorSize m)) (unat offset) (unat bufsize) i"
    and com: "\<forall>i'\<le>i. commits m (unat offset) (unat bufsize) lba i'"
  shows "\<exists>r m'. onWrite m junk lba offset buffer bufsize = Some (r, m') \<and>
           filter (on_sector (lba + of_nat i)) (drop (length (trace m)) (trace m'))
             = [ReadRAW (lba + of_nat i), WriteRAW (lba + of_nat i) (blocks m' (lba + of_nat i))] \<and>
           blocks m' (lba + of_nat i)
             = take (sect_off (unat offset) i) (blocks m (lba + of_nat i))
               @ take (sect_len (unat (sectorSize m)) (unat offset) (unat bufsize) i)
                   (drop (sect_pos (unat (sectorSize m)) (unat offset) i) buffer)
               @ drop (sect_off (unat offset) i
                         + sect_len (unat (sectorSize m)) (unat offset) (unat bufsize) i)
                   (blocks m (lba + of_nat i)) \<and>
           length (blocks m' (lba + of_nat i)) = unat (sectorSize m) \<and>
           (\<forall>p < unat (sectorSize m).
              p < sect_off (unat offset) i \<or>
              sect_off (unat offset) i
                + sect_len (unat (sectorSize m)) (unat offset) (unat bufsize) i \<le> p \<longrightarrow>
              blocks m' (lba + of_nat i) ! p = blocks m (lba + of_nat i) ! p)"
proof -
  let ?S = "unat (sectorSize m)" and ?o = "unat offset" and ?n = "unat bufsize"
  let ?k = "sectors_touched ?S ?o ?n"
  let ?b = "lba + of_nat i"
  let ?oi = "sect_off ?o i" and ?ci = "sect_len ?S ?o ?n i" and ?pi = "sect_pos ?S ?o i"
  let ?new = "take ?ci (drop ?pi buffer)"
  have ss: "sectorSize m = sector_size m" using ok by (rule sectorSize_ok)
  have blen: "\<And>b. length (blocks m b) = ?S" using ok ss by (simp add: medium_ok_def)
  obtain j where jk: "j \<le> ?k" and cj: "\<forall>i'<j. commits m ?o ?n lba i'"
    and stop: "j < ?k \<longrightarrow> \<not> commits m ?o ?n lba j"
    using first_failure[of ?k "commits m ?o ?n lba"] by blast
  have ij: "i < j"
  proof (rule ccontr)
    assume "\<not> i < j"
    then have "j \<le> i" by simp
    then have "j < ?k" "commits m ?o ?n lba j" using i com by auto
    then show False using stop by simp
  qed
  from onWrite_run[OF ok n off _ jk cj stop, of buffer junk] src
  obtain r m' where
    w: "onWrite m junk lba offset buffer bufsize = Some (r, m')"
    and p: "write_post m m' ?o ?n lba buffer j (j < ?k)"
    by auto
  have img: "blocks m' ?b = sector_image ?S ?o ?n buffer (blocks m ?b) i"
    and tr: "trace m' = trace m @ concat (map (sector_calls m ?o ?n lba buffer) [0..<j])
                @ (if j < ?k then abort_calls m ?o ?n lba buffer j else [])"
    using p ij unfolding write_post_def ss by blast+
  have rng: "\<forall>i'<j. lba + of_nat i' < num_sectors m" using cj by (rule commits_range)
  have other: "lba + of_nat i' \<noteq> ?b" if "i' \<le> j" "i' \<noteq> i" for i'
    using sectors_distinct[OF rng that(1) less_imp_le[OF ij]] that(2) by blast
  have calls_i: "sector_calls m ?o ?n lba buffer i = [ReadRAW ?b, WriteRAW ?b (blocks m' ?b)]"
    using part by (simp add: sector_calls_def img ss)
  have "filter (on_sector ?b) (concat (map (sector_calls m ?o ?n lba buffer) [0..<j]))
        = filter (on_sector ?b) (sector_calls m ?o ?n lba buffer i)"
  proof (rule filter_concat_single[OF ij])
    fix i' assume "i' < j" "i' \<noteq> i"
    then have "lba + of_nat i' \<noteq> ?b" using other[of i'] by simp
    then show "filter (on_sector ?b) (sector_calls m ?o ?n lba buffer i') = []"
      by (simp only: filter_sector_calls if_False)
  qed
  moreover have "filter (on_sector ?b) (if j < ?k then abort_calls m ?o ?n lba buffer j else []) = []"
  proof -
    have "lba + of_nat j \<noteq> ?b" using other[of j] ij by simp
    then have "filter (on_sector ?b) (abort_calls m ?o ?n lba buffer j) = []"
      by (rule filter_abort_calls)
    then show ?thesis by simp
  qed
  ultimately have f: "filter (on_sector ?b) (drop (length (trace m)) (trace m'))
        = [ReadRAW ?b, WriteRAW ?b (blocks m' ?b)]"
    unfolding tr by (simp add: filter_sector_calls calls_i)
  have "?ci \<le> length buffer - ?pi" unfolding sect_len_def src by linarith
  then have ln: "length ?new = ?ci" by simp
  have "?oi + ?ci \<le> ?S \<or> ?ci = 0" unfolding sect_len_def by linarith
  then have fit: "?oi + length ?new \<le> length (blocks m ?b) \<or> ?ci = 0"
    unfolding ln blen .
  have sp: "blocks m' ?b = spliced (blocks m ?b) ?oi ?new"
    unfolding img sector_image_def ..
  have eq: "blocks m' ?b = take ?oi (blocks m ?b) @ ?new @ drop (?oi + ?ci) (blocks m ?b)"
    unfolding sp spliced_def ln ..
  have len: "length (blocks m' ?b) = ?S" unfolding img using blen by (rule length_sector_image)
  have outside: "blocks m' ?b ! p = blocks m ?b ! p" if "p < ?S" "p < ?oi \<or> ?oi + ?ci \<le> p" for p
  proof (cases "?oi + length ?new \<le> length (blocks m ?b)")
    case True
    then show ?thesis unfolding sp using that(2) ln by (intro spliced_nth_outside) simp_all
  next
    case False
    then have z: "?ci = 0" using fit by simp
    show ?thesis unfolding eq z by simp
  qed
  show ?thesis using w f eq len outside by blast
qed

theorem rmw_on_partial_sector_witness:
  "\<exists>r m'. onWrite card512 [] 3 10 [171] 1 = Some (r, m') \<and>
      filter (on_sector 3) (trace m')
        = [ReadRAW 3, WriteRAW 3 (replicate 10 0 @ [171] @ replicate 501 0)] \<and>
      blocks m' 3 = replicate 10 0 @ [171] @ replicate 501 0"
proof -
  have ss: "sectorSize card512 = 512" by (simp add: sectorSize_def card512_def)
  have k: "sectors_touched 512 10 (Suc 0) = Suc 0" by (simp add: sectors_touched_def)
  have h1: "(1 :: u32) \<noteq> 0" by simp
  have h2: "(10 :: u32) < sectorSize card512" by (simp add: ss)
  have h3: "length [171 :: byte] = unat (1 :: u32)" by simp
  have h4: "0 < sectors_touched (unat (sectorSize card512)) (unat (10 :: u32)) (unat (1 :: u32))"
    by (simp add: ss k)
  have h5: "partial_sector (unat (sectorSize card512)) (unat (10 :: u32)) (unat (1 :: u32)) 0"
    by (simp add: ss partial_sector_def)
  have h6: "\<forall>i'\<le>0. commits card512 (unat (10 :: u32)) (unat (1 :: u32)) 3 i'"
    using read_ok_card512[of 3] write_ok_card512[of 3] by (simp add: commits_def)
  from rmw_on_partial_sector[OF medium_ok_card512 h1 h2 h3 h4 h5 h6, of "[]"]
  obtain r m' where
    w: "onWrite card512 [] 3 10 [171] 1 = Some (r, m')"
    and f: "filter (on_sector 3) (drop (length (trace card512)) (trace m'))
              = [ReadRAW 3, WriteRAW 3 (blocks m' 3)]"
    and b: "blocks m' 3 = take 10 (blocks card512 3) @ [171] @ drop 11 (blocks card512 3)"
    by (auto simp: ss sect_len_def)
  have "blocks card512 3 = replicate 512 0" "trace card512 = []" by (simp_all add: card512_def)
  then have "blocks m' 3 = replicate 10 0 @ [171] @ replicate 501 0"
    and "filter (on_sector 3) (trace m') = [ReadRAW 3, WriteRAW 3 (blocks m' 3)]"
    using b f by simp_all
  then show ?thesis using w by auto
qed

theorem rmw_1024_counterexample:
  "partial_sector (unat (sectorSize card1024)) 10 1 0 \<and> read_ok card1024 3 \<and>
   write_ok card1024 3 \<and>
   onWrite card1024 [] 3 10 [171] 1 = Some (Overrun, card1024\<lparr>trace := [ReadRAW 3]\<rparr>)"
proof -
  have "write_loop card1024 [] 1024 1 3 10 1 [171]
        = Some (Overrun, card1024\<lparr>trace := [ReadRAW 3]\<rparr>)"
    by (subst write_loop.simps)
      (simp add: TMP_SIZE_def Let_def readRAW_tmp_def readRAW_def read_ok_def card1024_def called_def)
  then show ?thesis
    by (simp add: onWrite_def sectorSize_def write_ok_def read_ok_def partial_sector_def)
      (simp add: card1024_def)
qed

section \<open>Return values, and requests while nothing is mounted\<close>

lemma fits_tmp_called [simp]: "fits_tmp (called c m) sec off = fits_tmp m sec off"
  by (simp add: fits_tmp_def)

lemma readRAW_tmp_cases:
  "readRAW_tmp m junk blk = (IoFail, called (ReadRAW blk) m) \<or>
   readRAW_tmp m junk blk = (TooLong, called (ReadRAW blk) m) \<and> TMP_SIZE < length (blocks m blk) \<or>
   (\<exists>tmp. readRAW_tmp m junk blk = (Tmp tmp, called (ReadRAW blk) m))"
  by (simp add: readRAW_tmp_def readRAW_def)

lemma chunk_fits:
  fixes sec off remain :: u32
  assumes "off \<le> sec" and "unat sec \<le> TMP_SIZE"
  shows "\<not> TMP_SIZE < unat off + unat (min remain (sec - off))"
proof -
  have "unat (min remain (sec - off)) \<le> unat (sec - off)"
    by (simp add: word_le_nat_alt[symmetric])
  moreover have "unat (sec - off) = unat sec - unat off" using assms(1) by (simp add: unat_sub)
  moreover have "unat off \<le> unat sec" using assms(1) by (simp add: word_le_nat_alt)
  ultimately show ?thesis using assms(2) by simp
qed

lemma read_loop_total:
  "sec \<noteq> 0 \<Longrightarrow>
   \<exists>r out m'. read_loop m junk sec bufsize blk off remain dst = Some (r, out, m') \<and>
      (r = Overrun \<or> r = Returns (- 1) \<or> r = Returns bufsize) \<and>
      is_open m' = is_open m \<and>
      (fits_tmp m sec off \<longrightarrow> r \<noteq> Overrun)"
proof (induction blk off remain arbitrary: m dst rule: xfer_induct)
  case (iter blk off remain)
  show ?case
  proof (cases "remain = 0")
    case True
    then show ?thesis by (subst read_loop.simps) simp
  next
    case r: False
    let ?m1 = "called (ReadRAW blk) m"
    let ?c = "min remain (sec - off)"
    consider (fail) "readRAW_tmp m junk blk = (IoFail, ?m1)"
      | (long) "readRAW_tmp m junk blk = (TooLong, ?m1)" "TMP_SIZE < length (blocks m blk)"
      | (tmp) tmp where "readRAW_tmp m junk blk = (Tmp tmp, ?m1)"
      using readRAW_tmp_cases[of m junk blk] by blast
    then show ?thesis
    proof cases
      case fail
      then show ?thesis using r by (subst read_loop.simps) simp
    next
      case long
      have "\<not> fits_tmp m sec off" using long(2) by (auto simp: fits_tmp_def not_le)
      then show ?thesis using r long(1) by (subst read_loop.simps) simp
    next
      case tmp
      show ?thesis
      proof (cases "TMP_SIZE < unat off + unat ?c")
        case True
        then have "\<not> fits_tmp m sec off" using chunk_fits[of off sec remain] by (auto simp: fits_tmp_def)
        then show ?thesis using r tmp True by (subst read_loop.simps) (simp add: Let_def)
      next
        case False
        let ?dst = "dst @ take (unat ?c) (drop (unat off) tmp)"
        from iter.IH[OF r, of ?m1 ?dst]
        obtain r' out m' where
          IH: "read_loop ?m1 junk sec bufsize (blk + 1) 0 (remain - ?c) ?dst = Some (r', out, m')"
            "r' = Overrun \<or> r' = Returns (- 1) \<or> r' = Returns bufsize"
            "is_open m' = is_open ?m1"
            "fits_tmp ?m1 sec 0 \<longrightarrow> r' \<noteq> Overrun"
          by blast
        have "fits_tmp m sec off \<Longrightarrow> fits_tmp ?m1 sec 0" by (simp add: fits_tmp_def)
        moreover have "read_loop m junk sec bufsize blk off remain dst = Some (r', out, m')"
          using r tmp False IH(1) by (subst read_loop.simps) (simp add: Let_def)
        ultimately show ?thesis using IH(2,3,4) by auto
      qed
    qed
  qed
qed

lemma writeRAW_cases:
  "writeRAW m buf blk
     = (True, called (WriteRAW blk (take (unat (sector_size m)) buf))
                (m\<lparr>blocks := (blocks m)(blk := take (unat (sector_size m)) buf)\<rparr>)) \<or>
   writeRAW m buf blk = (False, called (WriteRAW blk (take (unat (sector_size m)) buf)) m)"
  by (simp add: writeRAW_def Let_def)

lemma write_loop_total:
  "sec \<noteq> 0 \<Longrightarrow>
   \<exists>r m'. write_loop m junk sec bufsize blk off remain src = Some (r, m') \<and>
      (r = Overrun \<or> r = Returns (- 1) \<or> r = Returns bufsize) \<and>
      is_open m' = is_open m \<and>
      (fits_tmp m sec off \<longrightarrow> r \<noteq> Overrun)"
proof (induction blk off remain arbitrary: m src rule: xfer_induct)
  case (iter blk off remain)
  show ?case
  proof (cases "remain = 0")
    case True
    then show ?thesis by (subst write_loop.simps) simp
  next
    case r: False
    let ?c = "min remain (sec - off)"
    let ?fetch = "if off \<noteq> 0 \<or> remain < sec then readRAW_tmp m junk blk else (Tmp junk, m)"
    consider (fail) m1 where "?fetch = (IoFail, m1)"
      | (long) m1 where "?fetch = (TooLong, m1)" "TMP_SIZE < length (blocks m blk)"
      | (tmp) tmp m1 where "?fetch = (Tmp tmp, m1)" "m1 = m \<or> m1 = called (ReadRAW blk) m"
      using readRAW_tmp_cases[of m junk blk] by (cases "off \<noteq> 0 \<or> remain < sec") auto
    then show ?thesis
    proof cases
      case fail
      then have "is_open m1 = is_open m"
        using readRAW_tmp_cases[of m junk blk] by (auto split: if_splits)
      then show ?thesis using r fail by (subst write_loop.simps) simp
    next
      case long
      then have "is_open m1 = is_open m"
        using readRAW_tmp_cases[of m junk blk] by (auto split: if_splits)
      moreover have "\<not> fits_tmp m sec off" using long(2) by (auto simp: fits_tmp_def not_le)
      ultimately show ?thesis using r long(1) by (subst write_loop.simps) simp
    next
      case tmp
      have o1: "is_open m1 = is_open m" and f1: "fits_tmp m1 sec off = fits_tmp m sec off"
        and s1: "sector_size m1 = sector_size m"
        using tmp(2) by auto
      show ?thesis
      proof (cases "TMP_SIZE < unat off + unat ?c")
        case True
        then have "\<not> fits_tmp m sec off" using chunk_fits[of off sec remain] by (auto simp: fits_tmp_def)
        then show ?thesis using r tmp(1) True o1 by (subst write_loop.simps) (simp add: Let_def)
      next
        case False
        let ?buf = "take (unat off) tmp @ take (unat ?c) src @ drop (unat off + unat ?c) tmp"
        define sect where "sect = take (unat (sector_size m1)) ?buf"
        let ?m2 = "called (WriteRAW blk sect) (m1\<lparr>blocks := (blocks m1)(blk := sect)\<rparr>)"
        have ls: "length sect \<le> unat (sector_size m1)"
          unfolding sect_def by (rule order_trans[OF eq_refl[OF length_take] min.cobounded2])
        from writeRAW_cases[of m1 ?buf blk, folded sect_def]
        show ?thesis
        proof
          assume w: "writeRAW m1 ?buf blk = (True, ?m2)"
          from iter.IH[OF r, of ?m2 "drop (unat ?c) src"]
          obtain r' m' where
            IH: "write_loop ?m2 junk sec bufsize (blk + 1) 0 (remain - ?c) (drop (unat ?c) src)
                   = Some (r', m')"
              "r' = Overrun \<or> r' = Returns (- 1) \<or> r' = Returns bufsize"
              "is_open m' = is_open ?m2"
              "fits_tmp ?m2 sec 0 \<longrightarrow> r' \<noteq> Overrun"
            by blast
          have "fits_tmp ?m2 sec 0" if f: "fits_tmp m sec off"
          proof -
            have f': "fits_tmp m1 sec off" using f f1 by simp
            then have "length sect \<le> TMP_SIZE" using ls by (simp add: fits_tmp_def)
            then show ?thesis using f' unfolding fits_tmp_def by simp
          qed
          moreover have "write_loop m junk sec bufsize blk off remain src = Some (r', m')"
            using r tmp(1) False w IH(1) by (subst write_loop.simps) (simp add: Let_def)
          ultimately show ?thesis using IH(2,3,4) o1 by auto
        next
          assume w: "writeRAW m1 ?buf blk = (False, called (WriteRAW blk sect) m1)"
          show ?thesis using r tmp(1) False w o1
            by (subst write_loop.simps) (simp add: Let_def)
        qed
      qed
    qed
  qed
qed

subsection \<open>The return value and the calls that failed\<close>

lemma call_ok_called [simp]: "call_ok (called c m) x = call_ok m x"
  by (cases x) (simp_all add: called_def read_ok_def write_ok_def)

lemma call_ok_blocks [simp]: "call_ok (m\<lparr>blocks := f\<rparr>) x = call_ok m x"
  by (cases x) (simp_all add: read_ok_def write_ok_def)

lemma readRAW_tmp_verdict:
  "readRAW_tmp m junk blk = (IoFail, called (ReadRAW blk) m) \<and> \<not> read_ok m blk \<or>
   readRAW_tmp m junk blk = (TooLong, called (ReadRAW blk) m) \<and> read_ok m blk
     \<and> TMP_SIZE < length (blocks m blk) \<or>
   (\<exists>tmp. readRAW_tmp m junk blk = (Tmp tmp, called (ReadRAW blk) m) \<and> read_ok m blk)"
  by (simp add: readRAW_tmp_def readRAW_def)

lemma writeRAW_verdict:
  "writeRAW m buf blk
     = (True, called (WriteRAW blk (take (unat (sector_size m)) buf))
                (m\<lparr>blocks := (blocks m)(blk := take (unat (sector_size m)) buf)\<rparr>))
     \<and> write_ok m blk \<or>
   writeRAW m buf blk = (False, called (WriteRAW blk (take (unat (sector_size m)) buf)) m)
     \<and> \<not> write_ok m blk"
  by (simp add: writeRAW_def Let_def)

lemma read_loop_verdict:
  "sec \<noteq> 0 \<Longrightarrow>
   \<exists>r out m' calls. read_loop m junk sec bufsize blk off remain dst = Some (r, out, m') \<and>
      trace m' = trace m @ calls \<and>
      (remain \<noteq> 0 \<longrightarrow> calls \<noteq> []) \<and>
      (r = Overrun \<or>
       r = Returns (- 1) \<and> (\<exists>c\<in>set calls. \<not> call_ok m c) \<or>
       r = Returns bufsize \<and> (\<forall>c\<in>set calls. call_ok m c)) \<and>
      (\<forall>c\<in>set (butlast calls). call_ok m c)"
proof (induction blk off remain arbitrary: m dst rule: xfer_induct)
  case (iter blk off remain)
  show ?case
  proof (cases "remain = 0")
    case True
    then show ?thesis by (subst read_loop.simps) simp
  next
    case r: False
    let ?m1 = "called (ReadRAW blk) m"
    let ?c = "min remain (sec - off)"
    have t1: "trace ?m1 = trace m @ [ReadRAW blk]" by (simp add: called_def)
    have b1: "\<forall>c\<in>set (butlast [ReadRAW blk]). call_ok m c" by simp
    consider (fail) "readRAW_tmp m junk blk = (IoFail, ?m1)" "\<not> read_ok m blk"
      | (long) "readRAW_tmp m junk blk = (TooLong, ?m1)"
      | (tmp) tmp where "readRAW_tmp m junk blk = (Tmp tmp, ?m1)" "read_ok m blk"
      using readRAW_tmp_verdict[of m junk blk] by blast
    then show ?thesis
    proof cases
      case fail
      have "read_loop m junk sec bufsize blk off remain dst = Some (Returns (- 1), dst, ?m1)"
        using r fail(1) by (subst read_loop.simps) simp
      moreover have "\<exists>c\<in>set [ReadRAW blk]. \<not> call_ok m c" using fail(2) by simp
      ultimately show ?thesis using t1 b1 by blast
    next
      case long
      have "read_loop m junk sec bufsize blk off remain dst = Some (Overrun, dst, ?m1)"
        using r long by (subst read_loop.simps) simp
      then show ?thesis using t1 b1 by blast
    next
      case tmp
      show ?thesis
      proof (cases "TMP_SIZE < unat off + unat ?c")
        case True
        have "read_loop m junk sec bufsize blk off remain dst = Some (Overrun, dst, ?m1)"
          using r tmp(1) True by (subst read_loop.simps) (simp add: Let_def)
        then show ?thesis using t1 b1 by blast
      next
        case False
        let ?dst = "dst @ take (unat ?c) (drop (unat off) tmp)"
        from iter.IH[OF r, of ?m1 ?dst]
        obtain r' out m' calls where
          IH: "read_loop ?m1 junk sec bufsize (blk + 1) 0 (remain - ?c) ?dst = Some (r', out, m')"
            "trace m' = trace ?m1 @ calls"
            "r' = Overrun \<or>
             r' = Returns (- 1) \<and> (\<exists>c\<in>set calls. \<not> call_ok ?m1 c) \<or>
             r' = Returns bufsize \<and> (\<forall>c\<in>set calls. call_ok ?m1 c)"
            "\<forall>c\<in>set (butlast calls). call_ok ?m1 c"
          by blast
        have 1: "read_loop m junk sec bufsize blk off remain dst = Some (r', out, m')"
          using r tmp(1) False IH(1) by (subst read_loop.simps) (simp add: Let_def)
        have 2: "trace m' = trace m @ (ReadRAW blk # calls)" using IH(2) t1 by simp
        have 3: "r' = Overrun \<or>
             r' = Returns (- 1) \<and> (\<exists>c\<in>set (ReadRAW blk # calls). \<not> call_ok m c) \<or>
             r' = Returns bufsize \<and> (\<forall>c\<in>set (ReadRAW blk # calls). call_ok m c)"
          using IH(3) tmp(2) by auto
        have 4: "ReadRAW blk # calls \<noteq> []" by simp
        have 5: "\<forall>c\<in>set (butlast (ReadRAW blk # calls)). call_ok m c"
          using IH(4) tmp(2) by simp
        show ?thesis using 1 2 3 4 5 by blast
      qed
    qed
  qed
qed

lemma write_loop_verdict:
  "sec \<noteq> 0 \<Longrightarrow>
   \<exists>r m' calls. write_loop m junk sec bufsize blk off remain src = Some (r, m') \<and>
      trace m' = trace m @ calls \<and>
      (remain \<noteq> 0 \<longrightarrow> calls \<noteq> [] \<or> r = Overrun) \<and>
      (r = Overrun \<or>
       r = Returns (- 1) \<and> (\<exists>c\<in>set calls. \<not> call_ok m c) \<or>
       r = Returns bufsize \<and> (\<forall>c\<in>set calls. call_ok m c)) \<and>
      (\<forall>c\<in>set (butlast calls). call_ok m c)"
proof (induction blk off remain arbitrary: m src rule: xfer_induct)
  case (iter blk off remain)
  show ?case
  proof (cases "remain = 0")
    case True
    then show ?thesis by (subst write_loop.simps) simp
  next
    case r: False
    let ?c = "min remain (sec - off)"
    let ?fetch = "if off \<noteq> 0 \<or> remain < sec then readRAW_tmp m junk blk else (Tmp junk, m)"
    let ?mr = "called (ReadRAW blk) m"
    have tr: "trace ?mr = trace m @ [ReadRAW blk]" by (simp add: called_def)
    have b1: "\<forall>c\<in>set (butlast [ReadRAW blk]). call_ok m c" by simp
    consider (fail) "?fetch = (IoFail, ?mr)" "\<not> read_ok m blk"
      | (long) "?fetch = (TooLong, ?mr)"
      | (tmp) tmp m1 pre where "?fetch = (Tmp tmp, m1)" "trace m1 = trace m @ pre"
          "\<forall>c\<in>set pre. call_ok m c" "\<And>x. call_ok m1 x = call_ok m x"
      using readRAW_tmp_verdict[of m junk blk]
    proof (cases "off \<noteq> 0 \<or> remain < sec")
      case True
      from readRAW_tmp_verdict[of m junk blk] show ?thesis
      proof (elim disjE conjE exE)
        assume "readRAW_tmp m junk blk = (IoFail, ?mr)" "\<not> read_ok m blk"
        then show ?thesis using True fail by simp
      next
        assume "readRAW_tmp m junk blk = (TooLong, ?mr)"
        then show ?thesis using True long by simp
      next
        fix tmp assume a: "readRAW_tmp m junk blk = (Tmp tmp, ?mr)" "read_ok m blk"
        have "\<forall>c\<in>set [ReadRAW blk]. call_ok m c" using a(2) by simp
        moreover have "?fetch = (Tmp tmp, ?mr)" using True a(1) by simp
        ultimately show ?thesis using tmp[of tmp ?mr "[ReadRAW blk]"] tr by simp
      qed
    next
      case False
      then have "?fetch = (Tmp junk, m)" by simp
      then show ?thesis using tmp[of junk m "[]"] by simp
    qed
    then show ?thesis
    proof cases
      case fail
      have "write_loop m junk sec bufsize blk off remain src = Some (Returns (- 1), ?mr)"
        using r fail(1) by (subst write_loop.simps) simp
      moreover have "\<exists>c\<in>set [ReadRAW blk]. \<not> call_ok m c" using fail(2) by simp
      ultimately show ?thesis using tr b1 by blast
    next
      case long
      have "write_loop m junk sec bufsize blk off remain src = Some (Overrun, ?mr)"
        using r long by (subst write_loop.simps) simp
      then show ?thesis using tr b1 by blast
    next
      case tmp
      show ?thesis
      proof (cases "TMP_SIZE < unat off + unat ?c")
        case True
        have "write_loop m junk sec bufsize blk off remain src = Some (Overrun, m1)"
          using r tmp(1) True by (subst write_loop.simps) (simp add: Let_def)
        moreover have "\<forall>c\<in>set (butlast pre). call_ok m c"
          using tmp(3) by (auto dest: in_set_butlastD)
        ultimately show ?thesis using tmp(2) by blast
      next
        case False
        let ?buf = "take (unat off) tmp @ take (unat ?c) src @ drop (unat off + unat ?c) tmp"
        define sect where "sect = take (unat (sector_size m1)) ?buf"
        let ?w = "WriteRAW blk sect"
        let ?m2 = "called ?w (m1\<lparr>blocks := (blocks m1)(blk := sect)\<rparr>)"
        have wk: "call_ok m ?w = write_ok m1 blk" using tmp(4)[of ?w] by simp
        from writeRAW_verdict[of m1 ?buf blk, folded sect_def]
        show ?thesis
        proof (elim disjE conjE)
          assume w: "writeRAW m1 ?buf blk = (True, ?m2)" and ok: "write_ok m1 blk"
          from iter.IH[OF r, of ?m2 "drop (unat ?c) src"]
          obtain r' m' calls where
            IH: "write_loop ?m2 junk sec bufsize (blk + 1) 0 (remain - ?c) (drop (unat ?c) src)
                   = Some (r', m')"
              "trace m' = trace ?m2 @ calls"
              "r' = Overrun \<or>
               r' = Returns (- 1) \<and> (\<exists>c\<in>set calls. \<not> call_ok ?m2 c) \<or>
               r' = Returns bufsize \<and> (\<forall>c\<in>set calls. call_ok ?m2 c)"
              "\<forall>c\<in>set (butlast calls). call_ok ?m2 c"
            by blast
          have k2: "\<And>x. call_ok ?m2 x = call_ok m x" using tmp(4) by simp
          have 1: "write_loop m junk sec bufsize blk off remain src = Some (r', m')"
            using r tmp(1) False w IH(1) by (subst write_loop.simps) (simp add: Let_def)
          have 2: "trace m' = trace m @ (pre @ ?w # calls)"
            using IH(2) tmp(2) by (simp add: called_def)
          have 3: "r' = Overrun \<or>
               r' = Returns (- 1) \<and> (\<exists>c\<in>set (pre @ ?w # calls). \<not> call_ok m c) \<or>
               r' = Returns bufsize \<and> (\<forall>c\<in>set (pre @ ?w # calls). call_ok m c)"
            using IH(3) tmp(3) wk ok unfolding k2 by auto
          have 4: "pre @ ?w # calls \<noteq> []" by simp
          have 5: "\<forall>c\<in>set (butlast (pre @ ?w # calls)). call_ok m c"
            using IH(4) tmp(3) wk ok unfolding k2 by (auto simp: butlast_append)
          show ?thesis using 1 2 3 4 5 by blast
        next
          assume w: "writeRAW m1 ?buf blk = (False, called ?w m1)" and bad: "\<not> write_ok m1 blk"
          have 1: "write_loop m junk sec bufsize blk off remain src
                   = Some (Returns (- 1), called ?w m1)"
            using r tmp(1) False w by (subst write_loop.simps) (simp add: Let_def)
          have 2: "trace (called ?w m1) = trace m @ (pre @ [?w])"
            using tmp(2) by (simp add: called_def)
          have 3: "\<exists>c\<in>set (pre @ [?w]). \<not> call_ok m c" using wk bad by simp
          have 4: "pre @ [?w] \<noteq> []" by simp
          have 5: "\<forall>c\<in>set (butlast (pre @ [?w])). call_ok m c" using tmp(3) by simp
          show ?thesis using 1 2 3 4 5 by blast
        qed
      qed
    qed
  qed
qed


lemma onRead_verdict:
  "\<exists>r out m' calls. onRead m junk lba offset bufsize = Some (r, out, m') \<and>
      trace m' = trace m @ calls \<and>
      (calls = []) = (sectorSize m = 0 \<or> bufsize = 0) \<and>
      (r = Overrun \<or>
       r = Returns (- 1) \<and> (sectorSize m = 0 \<or> bufsize = 0 \<or> (\<exists>c\<in>set calls. \<not> call_ok m c)) \<or>
       r = Returns bufsize \<and> sectorSize m \<noteq> 0 \<and> bufsize \<noteq> 0 \<and> (\<forall>c\<in>set calls. call_ok m c)) \<and>
      (\<forall>c\<in>set (butlast calls). call_ok m c)"
proof (cases "sectorSize m = 0 \<or> bufsize = 0")
  case True
  then have "onRead m junk lba offset bufsize = Some (Returns (- 1), [], m)"
    by (simp add: onRead_def Let_def)
  moreover have "trace m = trace m @ []" by simp
  moreover have "\<forall>c\<in>set (butlast []). call_ok m c" by simp
  ultimately show ?thesis using True by blast
next
  case False
  then have nz: "sectorSize m \<noteq> 0" and n: "bufsize \<noteq> 0" by simp_all
  have "onRead m junk lba offset bufsize
        = read_loop m junk (sectorSize m) bufsize lba offset bufsize []"
    using False by (simp add: onRead_def Let_def)
  then show ?thesis
    using read_loop_verdict[OF nz, of m junk bufsize lba offset bufsize "[]"] nz n by auto
qed

lemma onWrite_verdict:
  "\<exists>r m' calls. onWrite m junk lba offset buffer bufsize = Some (r, m') \<and>
      trace m' = trace m @ calls \<and>
      (sectorSize m = 0 \<or> bufsize = 0 \<longrightarrow> calls = []) \<and>
      (r = Overrun \<or>
       r = Returns (- 1) \<and> (sectorSize m = 0 \<or> bufsize = 0 \<or> (\<exists>c\<in>set calls. \<not> call_ok m c)) \<or>
       r = Returns bufsize \<and> sectorSize m \<noteq> 0 \<and> bufsize \<noteq> 0 \<and> calls \<noteq> [] \<and>
         (\<forall>c\<in>set calls. call_ok m c)) \<and>
      (\<forall>c\<in>set (butlast calls). call_ok m c)"
proof (cases "sectorSize m = 0 \<or> bufsize = 0")
  case True
  then have "onWrite m junk lba offset buffer bufsize = Some (Returns (- 1), m)"
    by (simp add: onWrite_def Let_def)
  moreover have "trace m = trace m @ []" by simp
  moreover have "\<forall>c\<in>set (butlast []). call_ok m c" by simp
  ultimately show ?thesis using True by blast
next
  case False
  then have nz: "sectorSize m \<noteq> 0" and n: "bufsize \<noteq> 0" by simp_all
  have "onWrite m junk lba offset buffer bufsize
        = write_loop m junk (sectorSize m) bufsize lba offset bufsize buffer"
    using False by (simp add: onWrite_def Let_def)
  then show ?thesis
    using write_loop_verdict[OF nz, of m junk bufsize lba offset bufsize buffer] nz n by auto
qed

lemma sint_small: "uint (w :: u32) < 2147483648 \<Longrightarrow> sint w = uint w"
proof -
  assume a: "uint w < 2147483648"
  have "- (2 ^ 31) \<le> (0 :: int)" by simp
  also have "0 \<le> uint w" by simp
  finally have "- (2 ^ 31) \<le> uint w" .
  moreover have "uint w < 2 ^ 31" using a by simp
  ultimately have "signed_take_bit 31 (uint w) = uint w"
    by (rule signed_take_bit_int_eq_self)
  then show ?thesis by (simp add: sint_uint)
qed

lemma onRead_total:
  "\<exists>r out m'. onRead m junk lba offset bufsize = Some (r, out, m') \<and>
      (r = Overrun \<or> r = Returns (- 1) \<or> r = Returns bufsize) \<and>
      is_open m' = is_open m \<and>
      (defined_for m offset \<longrightarrow> r \<noteq> Overrun)"
proof (cases "sectorSize m = 0 \<or> bufsize = 0")
  case True
  then show ?thesis by (simp add: onRead_def Let_def)
next
  case False
  then have nz: "sectorSize m \<noteq> 0" and op: "sectorSize m = sector_size m"
    by (auto simp: sectorSize_def split: if_splits)
  have "defined_for m offset \<Longrightarrow> fits_tmp m (sectorSize m) offset"
    using nz op by (simp add: defined_for_def fits_tmp_def)
  moreover have "onRead m junk lba offset bufsize
                 = read_loop m junk (sectorSize m) bufsize lba offset bufsize []"
    using False by (simp add: onRead_def Let_def)
  ultimately show ?thesis
    using read_loop_total[OF nz, of m junk bufsize lba offset bufsize "[]"] by auto
qed

lemma onWrite_total:
  "\<exists>r m'. onWrite m junk lba offset buffer bufsize = Some (r, m') \<and>
      (r = Overrun \<or> r = Returns (- 1) \<or> r = Returns bufsize) \<and>
      is_open m' = is_open m \<and>
      (defined_for m offset \<longrightarrow> r \<noteq> Overrun)"
proof (cases "sectorSize m = 0 \<or> bufsize = 0")
  case True
  then show ?thesis by (simp add: onWrite_def Let_def)
next
  case False
  then have nz: "sectorSize m \<noteq> 0" and op: "sectorSize m = sector_size m"
    by (auto simp: sectorSize_def split: if_splits)
  have "defined_for m offset \<Longrightarrow> fits_tmp m (sectorSize m) offset"
    using nz op by (simp add: defined_for_def fits_tmp_def)
  moreover have "onWrite m junk lba offset buffer bufsize
                 = write_loop m junk (sectorSize m) bufsize lba offset bufsize buffer"
    using False by (simp add: onWrite_def Let_def)
  ultimately show ?thesis
    using write_loop_total[OF nz, of m junk bufsize lba offset bufsize buffer] by auto
qed

lemma onRead_unreadable:
  "onRead unreadable_card [] 1 0 8
     = Some (Returns (- 1), [4, 5, 6, 7], unreadable_card\<lparr>trace := [ReadRAW 1, ReadRAW 2]\<rparr>)"
proof -
  have "read_loop unreadable_card [] 4 8 1 0 8 []
        = Some (Returns (- 1), [4, 5, 6, 7], unreadable_card\<lparr>trace := [ReadRAW 1, ReadRAW 2]\<rparr>)"
    apply (subst read_loop.simps)
    apply (simp add: readRAW_tmp_def readRAW_def read_ok_def unreadable_card_def tiny_card_def
        TMP_SIZE_def called_def Let_def upt_rec)
    apply (subst read_loop.simps)
    apply (simp add: readRAW_tmp_def readRAW_def read_ok_def TMP_SIZE_def called_def Let_def)
    done
  then show ?thesis
    by (simp add: onRead_def sectorSize_def Let_def)
      (simp add: unreadable_card_def tiny_card_def)
qed

lemma onRead_tiny:
  "onRead tiny_card [] 1 0 8
     = Some (Returns 8, [4, 5, 6, 7, 8, 9, 10, 11], tiny_card\<lparr>trace := [ReadRAW 1, ReadRAW 2]\<rparr>)"
proof -
  have "read_loop tiny_card [] 4 8 1 0 8 []
        = Some (Returns 8, [4, 5, 6, 7, 8, 9, 10, 11], tiny_card\<lparr>trace := [ReadRAW 1, ReadRAW 2]\<rparr>)"
    apply (subst read_loop.simps)
    apply (simp add: readRAW_tmp_def readRAW_def read_ok_def tiny_card_def
        TMP_SIZE_def called_def Let_def upt_rec)
    apply (subst read_loop.simps)
    apply (simp add: readRAW_tmp_def readRAW_def read_ok_def TMP_SIZE_def called_def Let_def upt_rec)
    apply (subst read_loop.simps)
    apply simp
    done
  then show ?thesis
    by (simp add: onRead_def sectorSize_def Let_def)
      (simp add: tiny_card_def)
qed

lemma onWrite_flaky:
  "onWrite flaky_card [] 1 0 [20, 21, 22, 23, 24, 25, 26, 27] 8
     = Some (Returns (- 1),
             flaky_card\<lparr>blocks := (blocks flaky_card)(1 := [20, 21, 22, 23]),
                        trace := [WriteRAW 1 [20, 21, 22, 23], WriteRAW 2 [24, 25, 26, 27]]\<rparr>)"
proof -
  have "write_loop flaky_card [] 4 8 1 0 8 [20, 21, 22, 23, 24, 25, 26, 27]
     = Some (Returns (- 1),
             flaky_card\<lparr>blocks := (blocks flaky_card)(1 := [20, 21, 22, 23]),
                        trace := [WriteRAW 1 [20, 21, 22, 23], WriteRAW 2 [24, 25, 26, 27]]\<rparr>)"
    apply (subst write_loop.simps)
    apply (simp add: writeRAW_def write_ok_def flaky_card_def tiny_card_def
        TMP_SIZE_def called_def Let_def)
    apply (subst write_loop.simps)
    apply (simp add: writeRAW_def write_ok_def TMP_SIZE_def called_def Let_def)
    done
  then show ?thesis
    by (simp add: onWrite_def sectorSize_def Let_def)
      (simp add: flaky_card_def tiny_card_def)
qed

text \<open>
  C10. For every input with \<open>bufsize \<le> 2^31 - 1\<close>, \<open>onRead\<close> and \<open>onWrite\<close>
  return; the call either overruns \<open>tmp\<close> (which it never does when the medium is closed, or
  when its sectors are at most 512 bytes and \<open>offset\<close> is at most the sector size) or its
  \<open>int32_t\<close> result is -1 or exactly \<open>bufsize\<close>, never a partial count. The result is
  -1 exactly when the request failed, that is when the sector size is zero, \<open>bufsize\<close> is
  zero, or one of the sector operations the call made on the medium failed; when every one of
  them succeeded it is \<open>bufsize\<close>. Only the last operation of a call can be one that
  failed: the call stops there. With sector size zero or \<open>bufsize = 0\<close> nothing is
  touched.
\<close>

theorem transfer_all_or_nothing:
  assumes small: "uint bufsize < 2 ^ 31"
  shows "(\<exists>r out m' calls. onRead m junk lba offset bufsize = Some (r, out, m') \<and>
            trace m' = trace m @ calls \<and>
            (r = Overrun \<or>
             (\<exists>v. r = Returns v \<and> (sint v = - 1 \<or> sint v = uint bufsize) \<and>
                  (sint v = - 1) = (sectorSize m = 0 \<or> bufsize = 0 \<or>
                                    (\<exists>c\<in>set calls. \<not> call_ok m c)))) \<and>
            (\<forall>c\<in>set (butlast calls). call_ok m c) \<and>
            (defined_for m offset \<longrightarrow> r \<noteq> Overrun))
       \<and> (\<exists>r m' calls. onWrite m junk lba offset buffer bufsize = Some (r, m') \<and>
            trace m' = trace m @ calls \<and>
            (r = Overrun \<or>
             (\<exists>v. r = Returns v \<and> (sint v = - 1 \<or> sint v = uint bufsize) \<and>
                  (sint v = - 1) = (sectorSize m = 0 \<or> bufsize = 0 \<or>
                                    (\<exists>c\<in>set calls. \<not> call_ok m c)))) \<and>
            (\<forall>c\<in>set (butlast calls). call_ok m c) \<and>
            (defined_for m offset \<longrightarrow> r \<noteq> Overrun))
       \<and> (sectorSize m = 0 \<or> bufsize = 0 \<longrightarrow>
            onRead m junk lba offset bufsize = Some (Returns (- 1), [], m) \<and>
            onWrite m junk lba offset buffer bufsize = Some (Returns (- 1), m))"
proof -
  have s: "sint bufsize = uint bufsize" using small by (intro sint_small) simp
  have m1: "sint (- 1 :: u32) = - 1" by simp
  have "0 \<le> uint bufsize" by simp
  then have ne: "sint bufsize \<noteq> - 1" using s by linarith
  have val: "r = Overrun \<or>
             (\<exists>v. r = Returns v \<and> (sint v = - 1 \<or> sint v = uint bufsize) \<and>
                  (sint v = - 1) = (sectorSize m = 0 \<or> bufsize = 0 \<or>
                                    (\<exists>c\<in>set calls. \<not> call_ok m c)))"
    if "r = Overrun \<or>
        r = Returns (- 1) \<and> (sectorSize m = 0 \<or> bufsize = 0 \<or> (\<exists>c\<in>set calls. \<not> call_ok m c)) \<or>
        r = Returns bufsize \<and> sectorSize m \<noteq> 0 \<and> bufsize \<noteq> 0 \<and> (\<forall>c\<in>set calls. call_ok m c)"
    for r :: "u32 outcome" and calls
    using that s m1 ne by auto
  have rd: "\<exists>r out m' calls. onRead m junk lba offset bufsize = Some (r, out, m') \<and>
            trace m' = trace m @ calls \<and>
            (r = Overrun \<or>
             (\<exists>v. r = Returns v \<and> (sint v = - 1 \<or> sint v = uint bufsize) \<and>
                  (sint v = - 1) = (sectorSize m = 0 \<or> bufsize = 0 \<or>
                                    (\<exists>c\<in>set calls. \<not> call_ok m c)))) \<and>
            (\<forall>c\<in>set (butlast calls). call_ok m c) \<and>
            (defined_for m offset \<longrightarrow> r \<noteq> Overrun)"
  proof -
    from onRead_verdict[of m junk lba offset bufsize]
    obtain r out m' calls where
      v: "onRead m junk lba offset bufsize = Some (r, out, m')" "trace m' = trace m @ calls"
        "r = Overrun \<or>
         r = Returns (- 1) \<and> (sectorSize m = 0 \<or> bufsize = 0 \<or> (\<exists>c\<in>set calls. \<not> call_ok m c)) \<or>
         r = Returns bufsize \<and> sectorSize m \<noteq> 0 \<and> bufsize \<noteq> 0 \<and> (\<forall>c\<in>set calls. call_ok m c)"
        "\<forall>c\<in>set (butlast calls). call_ok m c"
      by blast
    have "defined_for m offset \<longrightarrow> r \<noteq> Overrun"
      using onRead_total[of m junk lba offset bufsize] v(1) by auto
    then show ?thesis using v(1,2,4) val[OF v(3)] by blast
  qed
  have wr: "\<exists>r m' calls. onWrite m junk lba offset buffer bufsize = Some (r, m') \<and>
            trace m' = trace m @ calls \<and>
            (r = Overrun \<or>
             (\<exists>v. r = Returns v \<and> (sint v = - 1 \<or> sint v = uint bufsize) \<and>
                  (sint v = - 1) = (sectorSize m = 0 \<or> bufsize = 0 \<or>
                                    (\<exists>c\<in>set calls. \<not> call_ok m c)))) \<and>
            (\<forall>c\<in>set (butlast calls). call_ok m c) \<and>
            (defined_for m offset \<longrightarrow> r \<noteq> Overrun)"
  proof -
    from onWrite_verdict[of m junk lba offset buffer bufsize]
    obtain r m' calls where
      v: "onWrite m junk lba offset buffer bufsize = Some (r, m')" "trace m' = trace m @ calls"
        "r = Overrun \<or>
         r = Returns (- 1) \<and> (sectorSize m = 0 \<or> bufsize = 0 \<or> (\<exists>c\<in>set calls. \<not> call_ok m c)) \<or>
         r = Returns bufsize \<and> sectorSize m \<noteq> 0 \<and> bufsize \<noteq> 0 \<and> calls \<noteq> [] \<and>
           (\<forall>c\<in>set calls. call_ok m c)"
        "\<forall>c\<in>set (butlast calls). call_ok m c"
      by blast
    have v3: "r = Overrun \<or>
         r = Returns (- 1) \<and> (sectorSize m = 0 \<or> bufsize = 0 \<or> (\<exists>c\<in>set calls. \<not> call_ok m c)) \<or>
         r = Returns bufsize \<and> sectorSize m \<noteq> 0 \<and> bufsize \<noteq> 0 \<and> (\<forall>c\<in>set calls. call_ok m c)"
      using v(3) by blast
    have "defined_for m offset \<longrightarrow> r \<noteq> Overrun"
      using onWrite_total[of m junk lba offset buffer bufsize] v(1) by auto
    then show ?thesis using v(1,2,4) val[OF v3] by blast
  qed
  have z: "sectorSize m = 0 \<or> bufsize = 0 \<longrightarrow>
            onRead m junk lba offset bufsize = Some (Returns (- 1), [], m) \<and>
            onWrite m junk lba offset buffer bufsize = Some (Returns (- 1), m)"
    by (simp add: onRead_def onWrite_def Let_def)
  show ?thesis using rd wr z by blast
qed

theorem transfer_all_or_nothing_witness:
  "uint (8 :: u32) < 2 ^ 31 \<and>
   onRead tiny_card [] 1 0 8
     = Some (Returns 8, [4, 5, 6, 7, 8, 9, 10, 11], tiny_card\<lparr>trace := [ReadRAW 1, ReadRAW 2]\<rparr>) \<and>
   call_ok tiny_card (ReadRAW 1) \<and> call_ok tiny_card (ReadRAW 2) \<and>
   onRead unreadable_card [] 1 0 8
     = Some (Returns (- 1), [4, 5, 6, 7], unreadable_card\<lparr>trace := [ReadRAW 1, ReadRAW 2]\<rparr>) \<and>
   \<not> call_ok unreadable_card (ReadRAW 2) \<and>
   (\<exists>m'. onWrite flaky_card [] 1 0 [20, 21, 22, 23, 24, 25, 26, 27] 8 = Some (Returns (- 1), m') \<and>
         trace m' = [WriteRAW 1 [20, 21, 22, 23], WriteRAW 2 [24, 25, 26, 27]] \<and>
         \<not> call_ok flaky_card (WriteRAW 2 [24, 25, 26, 27])) \<and>
   sint (- 1 :: u32) = - 1 \<and> sint (8 :: u32) = 8"
proof -
  have h: "uint (8 :: u32) < 2 ^ 31" by simp
  have k: "call_ok tiny_card (ReadRAW 1)" "call_ok tiny_card (ReadRAW 2)"
    "\<not> call_ok unreadable_card (ReadRAW 2)" "\<not> call_ok flaky_card (WriteRAW 2 [24, 25, 26, 27])"
    by (simp_all add: read_ok_def write_ok_def tiny_card_def unreadable_card_def flaky_card_def)
  note t = transfer_all_or_nothing[OF h, of _ "[]" 1 0 "[20, 21, 22, 23, 24, 25, 26, 27]"]
  from t[of tiny_card, THEN conjunct1] t[of unreadable_card, THEN conjunct1]
    t[of flaky_card, THEN conjunct2, THEN conjunct1]
  show ?thesis
    using h k by (simp add: onRead_tiny onRead_unreadable onWrite_flaky)
qed

lemma read_ok_big_card: "i < 4194304 \<Longrightarrow> read_ok big_card (0 + of_nat i)"
proof -
  assume a: "i < 4194304"
  then have "unat (of_nat i :: u32) = i" by (simp add: unat_of_nat)
  then have "(of_nat i :: u32) < 4294967295" using a by (simp add: word_less_nat_alt)
  then show ?thesis by (simp add: read_ok_def big_card_def)
qed

theorem int32_cast_counterexample:
  "map_option fst (onRead big_card [] 0 0 2147483648) = Some (Returns 2147483648) \<and>
   sint (2147483648 :: u32) = - 2147483648"
proof -
  have ok: "medium_ok big_card" by (simp add: medium_ok_def big_card_def TMP_SIZE_def)
  have ss: "sectorSize big_card = 512" by (simp add: sectorSize_def big_card_def)
  have k: "sectors_touched 512 0 2147483648 = 4194304" by (simp add: sectors_touched_def)
  have h1: "(2147483648 :: u32) \<noteq> 0" by simp
  have h2: "(0 :: u32) < sectorSize big_card" by (simp add: ss)
  have h3: "\<forall>i < sectors_touched (unat (sectorSize big_card)) (unat (0 :: u32))
               (unat (2147483648 :: u32)). read_ok big_card (0 + of_nat i)"
    by (simp add: ss k read_ok_big_card del: add_0)
  note r = onRead_ok[OF ok h1 h2 h3, of "[]"]
  have "map_option fst (onRead big_card [] 0 0 2147483648) = Some (Returns 2147483648)"
    by (simp only: r option.map fst_conv)
  then show ?thesis by simp
qed










end
